theory Spec2Isabelle
  imports Complex_Main "HOL-Library.Sublist"
begin

section \<open>Data model\<close>

text \<open>
  Digests cross every interface as hexadecimal strings. Leaf hashing
  (\<open>generate_record_hash\<close>) and node combination (\<open>combine_child_hashes\<close>) are methods
  of \<open>IntegrityTreeStructure\<close> in the module \<open>crypto_hash_tree\<close>; the functions below take
  them as the parameters \<open>leaf_hash\<close> and \<open>combine\<close>, so every result holds for any hash.
\<close>

type_synonym digest = string

text \<open>The Python exceptions that the modelled code can raise.\<close>

datatype py_error =
  ZeroDivisionError | IndexError | TypeError | FileNotFoundError | EmptyInputError

section \<open>Authentication path verification (\<open>proof_generator.py\<close>, \<open>performance_analyzer.py\<close>)\<close>

text \<open>
  \<open>locate_and_verify_record\<close>, lines 137 to 142: the loop over the authentication path.
  The running value is \<open>recomputed_apex\<close>; a step whose direction is the string
  \<open>LEFT\<close> puts the running value on the left, any other direction puts it on the right.
\<close>

fun recompute_apex :: "(digest \<Rightarrow> digest \<Rightarrow> digest) \<Rightarrow> digest \<Rightarrow> (string \<times> digest) list \<Rightarrow> digest" where
  "recompute_apex combine recomputed_apex [] = recomputed_apex"
| "recompute_apex combine recomputed_apex ((direction_indicator, sibling_digest) # rest) =
     (if direction_indicator = ''LEFT''
      then recompute_apex combine (combine recomputed_apex sibling_digest) rest
      else recompute_apex combine (combine sibling_digest recomputed_apex) rest)"

text \<open>
  \<open>execute_proof_benchmarks\<close>, lines 92 to 99: the same loop in the benchmark, written
  there over the names \<open>direction\<close> and \<open>sibling_hash\<close>.
\<close>

fun benchmark_recompute_apex :: "(digest \<Rightarrow> digest \<Rightarrow> digest) \<Rightarrow> digest \<Rightarrow> (string \<times> digest) list \<Rightarrow> digest" where
  "benchmark_recompute_apex combine recomputed_apex [] = recomputed_apex"
| "benchmark_recompute_apex combine recomputed_apex ((direction, sibling_hash) # rest) =
     benchmark_recompute_apex combine
       (if direction = ''LEFT'' then combine recomputed_apex sibling_hash
        else combine sibling_hash recomputed_apex) rest"

text \<open>
  \<open>locate_and_verify_record\<close>, lines 150 to 158: the verdict printed after the loop,
  \<open>AUTHENTICATED\<close> when the recomputed apex equals the stored one and
  \<open>AUTHENTICATION FAILED\<close> otherwise.
\<close>

datatype verification_result = Authenticated | AuthenticationFailed

definition verification_verdict :: "(digest \<Rightarrow> digest \<Rightarrow> digest) \<Rightarrow> digest \<Rightarrow> (string \<times> digest) list \<Rightarrow> digest \<Rightarrow> verification_result" where
  "verification_verdict combine terminal_hash authentication_path stored_apex_hash =
     (let recomputed_apex = recompute_apex combine terminal_hash authentication_path
      in if recomputed_apex = stored_apex_hash then Authenticated else AuthenticationFailed)"

text \<open>
  The specification's Path Verifier (section 4.6), written from its words: one step of the
  fold, and the fold over the path from the leaf digest.
\<close>

definition spec_path_step :: "(digest \<Rightarrow> digest \<Rightarrow> digest) \<Rightarrow> digest \<Rightarrow> string \<times> digest \<Rightarrow> digest" where
  "spec_path_step combine running entry =
     (if fst entry = ''LEFT'' then combine running (snd entry) else combine (snd entry) running)"

definition spec_verify :: "(digest \<Rightarrow> digest \<Rightarrow> digest) \<Rightarrow> digest \<Rightarrow> (string \<times> digest) list \<Rightarrow> digest \<Rightarrow> bool" where
  "spec_verify combine leafDigest path expectedApex =
     (foldl (spec_path_step combine) leafDigest path = expectedApex)"

section \<open>Apex comparison (\<open>integrity_checker.py\<close>)\<close>

text \<open>
  \<open>execute_integrity_check\<close>, lines 127 to 141: the comparison of the stored apex with the
  apex rebuilt from the current records (\<open>None\<close> if the builder returned Python's
  \<open>None\<close>, which is equal to no string). Both branches print their verdict,
  \<open>DATA INTEGRITY CONFIRMED\<close> or \<open>DATA INTEGRITY COMPROMISED\<close>, and fall off the end of
  the function, which is a normal return; the result type keeps the possibility of a
  raised error visible.
\<close>

datatype integrity_verdict = IntegrityConfirmed | IntegrityCompromised

definition integrity_comparison :: "digest \<Rightarrow> digest option \<Rightarrow> py_error + integrity_verdict" where
  "integrity_comparison stored_apex_digest current_apex_digest =
     (if Some stored_apex_digest = current_apex_digest then Inr IntegrityConfirmed
      else Inr IntegrityCompromised)"

section \<open>Import and sanitation (\<open>dataset_processor.py\<close>)\<close>

text \<open>
  A record of the review dataset, as \<open>json.loads\<close> returns it: each field is absent or
  holds a value of the JSON type it has in the dataset (a number for \<open>overall\<close>, an
  integer for \<open>unixReviewTime\<close>, a boolean for \<open>verified\<close>, an object for \<open>style\<close>, a
  string for the others). \<open>ReviewID\<close> is the field that sanitation adds.
\<close>

record review =
  overall :: "rat option"
  vote :: "string option"
  verified :: "bool option"
  reviewTime :: "string option"
  reviewerID :: "string option"
  asin :: "string option"
  style :: "(string \<times> string) list option"
  reviewerName :: "string option"
  reviewText :: "string option"
  summary :: "string option"
  unixReviewTime :: "int option"
  ReviewID :: "string option"

text \<open>
  \<open>sanitize_and_normalize\<close>, lines 89 to 92: every field of \<open>field_defaults\<close> that the
  record lacks is set to its default, and \<open>fields_corrected\<close> counts them.
\<close>

definition or_default :: "'a \<Rightarrow> 'a option \<Rightarrow> 'a option" where
  "or_default default_value field = (case field of None \<Rightarrow> Some default_value | Some v \<Rightarrow> Some v)"

definition missing_fields :: "review \<Rightarrow> nat" where
  "missing_fields record =
     length (filter (\<lambda>absent. absent)
       [overall record = None, vote record = None, verified record = None,
        reviewTime record = None, reviewerID record = None, asin record = None,
        style record = None, reviewerName record = None, reviewText record = None,
        summary record = None, unixReviewTime record = None])"

definition fill_defaults :: "review \<Rightarrow> review" where
  "fill_defaults record =
     record\<lparr>overall := or_default 0 (overall record),
            vote := or_default [] (vote record),
            verified := or_default False (verified record),
            reviewTime := or_default [] (reviewTime record),
            reviewerID := or_default [] (reviewerID record),
            asin := or_default [] (asin record),
            style := or_default [] (style record),
            reviewerName := or_default [] (reviewerName record),
            reviewText := or_default [] (reviewText record),
            summary := or_default [] (summary record),
            unixReviewTime := or_default 0 (unixReviewTime record)\<rparr>"

text \<open>
  Lines 95 to 113: each field of \<open>text_field_list\<close> that is a string is stripped
  (\<open>str.strip\<close> is the parameter \<open>strip\<close>; encoding to UTF-8 and back changes nothing).
  The conversions \<open>float\<close>, \<open>bool\<close> and \<open>int\<close> and the dictionary check leave a value of
  the field's own type as it is; their \<open>except\<close> branches are taken for values of other
  types only.
\<close>

definition normalize_text :: "(string \<Rightarrow> string) \<Rightarrow> review \<Rightarrow> review" where
  "normalize_text strip record =
     record\<lparr>vote := map_option strip (vote record),
            reviewTime := map_option strip (reviewTime record),
            reviewerID := map_option strip (reviewerID record),
            asin := map_option strip (asin record),
            reviewerName := map_option strip (reviewerName record),
            reviewText := map_option strip (reviewText record),
            summary := map_option strip (summary record)\<rparr>"

definition sanitize_record :: "(string \<Rightarrow> string) \<Rightarrow> review \<Rightarrow> review" where
  "sanitize_record strip record = normalize_text strip (fill_defaults record)"

text \<open>Line 116: the composite key of a sanitized record.\<close>

definition composite_key :: "review \<Rightarrow> string option \<times> string option \<times> int option" where
  "composite_key record = (reviewerID record, asin record, unixReviewTime record)"

text \<open>
  Lines 87 to 123: the sanitation loop. \<open>duplicate_tracker\<close> is the set of keys seen,
  \<open>deduplicated_records\<close> the list of records kept. After each record the progress
  condition \<open>index % (record_total // 10) == 0 or ...\<close> is evaluated; its first operand
  raises \<open>ZeroDivisionError\<close> when \<open>record_total // 10\<close> is zero. Drawing the progress
  bar has no other effect on the result and is left out.
\<close>

fun sanitize_loop ::
  "(string \<Rightarrow> string) \<Rightarrow> int \<Rightarrow> nat \<Rightarrow> nat \<Rightarrow> (string option \<times> string option \<times> int option) set
     \<Rightarrow> review list \<Rightarrow> review list \<Rightarrow> py_error + (nat \<times> review list)" where
  "sanitize_loop strip record_total index fields_corrected duplicate_tracker deduplicated_records [] =
     Inr (fields_corrected, deduplicated_records)"
| "sanitize_loop strip record_total index fields_corrected duplicate_tracker deduplicated_records
     (raw # rest) =
     (let record = sanitize_record strip raw;
          fields_corrected' = fields_corrected + missing_fields raw;
          fresh = (composite_key record \<notin> duplicate_tracker);
          duplicate_tracker' = (if fresh then insert (composite_key record) duplicate_tracker
                                else duplicate_tracker);
          deduplicated_records' = (if fresh then deduplicated_records @ [record]
                                   else deduplicated_records)
      in if record_total div 10 = 0 then Inl ZeroDivisionError
         else sanitize_loop strip record_total (Suc index) fields_corrected' duplicate_tracker'
                deduplicated_records' rest)"

text \<open>
  Line 130: the identifier \<open>f"R{index:06d}"\<close>, the letter R and the decimal digits of the
  index, padded on the left with zeros to a width of six.
\<close>

definition digit_char :: "nat \<Rightarrow> char" where
  "digit_char d = ''0123456789'' ! d"

fun decimal_digits :: "nat \<Rightarrow> string" where
  "decimal_digits n =
     (if n < 10 then [digit_char n] else decimal_digits (n div 10) @ [digit_char (n mod 10)])"

declare decimal_digits.simps [simp del]

definition format_06d :: "nat \<Rightarrow> string" where
  "format_06d index =
     (let digits = decimal_digits index in replicate (6 - length digits) (CHR ''0'') @ digits)"

definition review_id :: "nat \<Rightarrow> string" where
  "review_id index = CHR ''R'' # format_06d index"

text \<open>
  Lines 128 to 133: the loop that assigns the identifiers, with its own progress
  condition \<open>index % (unique_record_count // 10) == 0 or ...\<close>.
\<close>

fun assign_ids :: "int \<Rightarrow> nat \<Rightarrow> review list \<Rightarrow> py_error + review list" where
  "assign_ids unique_record_count index [] = Inr []"
| "assign_ids unique_record_count index (record # rest) =
     (if unique_record_count div 10 = 0 then Inl ZeroDivisionError
      else case assign_ids unique_record_count (Suc index) rest of
             Inl e \<Rightarrow> Inl e
           | Inr rest' \<Rightarrow> Inr (record\<lparr>ReviewID := Some (review_id index)\<rparr> # rest'))"

text \<open>Lines 143 to 150: the statistics (without \<open>save_time\<close>, a wall-clock duration).\<close>

record processing_statistics =
  total_loaded :: int
  valid_records :: int
  duplicates_removed :: int
  missing_fields_handled :: int
  unique_ids_generated :: int

definition sanitize_and_normalize ::
  "(string \<Rightarrow> string) \<Rightarrow> review list \<Rightarrow> py_error + (review list \<times> processing_statistics)" where
  "sanitize_and_normalize strip raw_records =
     (let initial_count = int (length raw_records);
          record_total = int (length raw_records)
      in case sanitize_loop strip record_total 0 0 {} [] raw_records of
           Inl e \<Rightarrow> Inl e
         | Inr (fields_corrected, kept) \<Rightarrow>
             (case assign_ids (int (length kept)) 0 kept of
                Inl e \<Rightarrow> Inl e
              | Inr deduplicated_records \<Rightarrow>
                  Inr (deduplicated_records,
                       \<lparr>total_loaded = initial_count,
                        valid_records = int (length deduplicated_records),
                        duplicates_removed = initial_count - int (length deduplicated_records),
                        missing_fields_handled = int fields_corrected,
                        unique_ids_generated = int (length deduplicated_records)\<rparr>)))"

text \<open>
  \<open>load_and_process\<close>, lines 35 to 52, called with a record count (as
  \<open>import_dataset\<close> and the benchmarks do). The source file is \<open>None\<close> when it does not
  exist and otherwise the list of its lines, each already decoded by \<open>json.loads\<close>. The
  loop stops at \<open>record_count\<close> lines; after each appended record it evaluates the
  progress condition \<open>line_number % (record_count // 10) == 0 or ...\<close>.
\<close>

fun import_loop :: "int \<Rightarrow> nat \<Rightarrow> review list \<Rightarrow> review list \<Rightarrow> py_error + review list" where
  "import_loop record_count line_number imported_records [] = Inr imported_records"
| "import_loop record_count line_number imported_records (json_line # rest) =
     (if int line_number \<ge> record_count then Inr imported_records
      else if record_count div 10 = 0 then Inl ZeroDivisionError
      else import_loop record_count (Suc line_number) (imported_records @ [json_line]) rest)"

definition load_and_process ::
  "(string \<Rightarrow> string) \<Rightarrow> review list option \<Rightarrow> int
     \<Rightarrow> py_error + (review list \<times> processing_statistics)" where
  "load_and_process strip source_file record_count =
     (case source_file of
        None \<Rightarrow> Inl FileNotFoundError
      | Some json_lines \<Rightarrow>
          (case import_loop record_count 0 [] json_lines of
             Inl e \<Rightarrow> Inl e
           | Inr imported_records \<Rightarrow> sanitize_and_normalize strip imported_records))"

text \<open>
  The notions in which the result of sanitation is described: the first occurrence of
  every key in a list, in the order of the list, and a record with the identifier of an
  index.
\<close>

fun first_occurrences :: "('a \<Rightarrow> 'k) \<Rightarrow> 'a list \<Rightarrow> 'a list" where
  "first_occurrences key [] = []"
| "first_occurrences key (x # xs) = x # first_occurrences key (filter (\<lambda>y. key y \<noteq> key x) xs)"

definition with_id :: "nat \<Rightarrow> review \<Rightarrow> review" where
  "with_id index record = record\<lparr>ReviewID := Some (review_id index)\<rparr>"

text \<open>
  The deduplication of the loop as a function of the set of keys seen so far, which the
  proofs use, and the number that a string of decimal digits denotes.
\<close>

fun dedup_from :: "('a \<Rightarrow> 'k) \<Rightarrow> 'k set \<Rightarrow> 'a list \<Rightarrow> 'a list" where
  "dedup_from key seen [] = []"
| "dedup_from key seen (x # xs) =
     (if key x \<in> seen then dedup_from key seen xs else x # dedup_from key (insert (key x) seen) xs)"

definition decode_decimal :: "string \<Rightarrow> nat" where
  "decode_decimal s = foldl (\<lambda>a c. 10 * a + (of_char c - 48)) 0 s"

text \<open>
  \<open>import_dataset\<close> (\<open>command_interface.py\<close>, lines 56 to 63): the record counts that the
  command accepts.
\<close>

definition accepted_record_count :: "int \<Rightarrow> bool" where
  "accepted_record_count record_limit = (\<not> (record_limit < 1 \<or> record_limit > 1500000))"

section \<open>Python built-ins on floats and strings\<close>

text \<open>
  The version numbers of the snapshot files are Python floats. The built-ins that the
  code applies to them are parameters of the model, collected in one record over a type
  \<open>'v\<close> of float values: \<open>float(s)\<close> (\<open>None\<close> when it raises \<open>ValueError\<close>), the
  comparison \<open>a > b\<close>, the constant \<open>1.0\<close>, the sum \<open>v + 0.1\<close> and the format
  \<open>f"{v:.1f}"\<close>. A theorem stated for an arbitrary record of built-ins holds whatever
  the float arithmetic does; the instance of Python's own floats is defined further down.
\<close>

record 'v float_builtins =
  float_of :: "string \<Rightarrow> 'v option"
  float_gt :: "'v \<Rightarrow> 'v \<Rightarrow> bool"
  float_one :: "'v"
  add_tenth :: "'v \<Rightarrow> 'v"
  format_1f :: "'v \<Rightarrow> string"

text \<open>
  The built-in \<open>max\<close> over a non-empty list: it keeps the first item and replaces it by
  a later one only when that one compares greater. With \<open>key=\<close> the comparison is on the
  keys. On an empty list \<open>max\<close> raises \<open>ValueError\<close>; the code calls it on non-empty lists
  only, and the model returns \<open>None\<close> there.
\<close>

fun py_max_from :: "('a \<Rightarrow> 'a \<Rightarrow> bool) \<Rightarrow> 'a \<Rightarrow> 'a list \<Rightarrow> 'a" where
  "py_max_from is_greater current [] = current"
| "py_max_from is_greater current (item # rest) =
     py_max_from is_greater (if is_greater item current then item else current) rest"

definition py_max :: "('a \<Rightarrow> 'a \<Rightarrow> bool) \<Rightarrow> 'a list \<Rightarrow> 'a option" where
  "py_max is_greater items =
     (case items of [] \<Rightarrow> None | first # rest \<Rightarrow> Some (py_max_from is_greater first rest))"

text \<open>
  \<open>str.split(sep)\<close> for a non-empty separator: the pieces between the occurrences of
  the separator, found from left to right without overlap. (Python raises \<open>ValueError\<close>
  on an empty separator; the code splits at \<open>_root_v\<close> and \<open>.json\<close> only.)
\<close>

function split_from :: "string \<Rightarrow> string \<Rightarrow> string \<Rightarrow> string list" where
  "split_from sep piece [] = [piece]"
| "split_from sep piece (c # cs) =
     (if sep \<noteq> [] \<and> prefix sep (c # cs)
      then piece # split_from sep [] (drop (length sep) (c # cs))
      else split_from sep (piece @ [c]) cs)"
  by pat_completeness auto
termination
  by (relation "measure (\<lambda>(sep, piece, s). length s)") (auto simp: neq_Nil_conv)

definition py_split :: "string \<Rightarrow> string \<Rightarrow> string list" where
  "py_split sep s = split_from sep [] s"

section \<open>Snapshot versions (\<open>command_interface.py\<close>, \<open>determine_next_version\<close>)\<close>

text \<open>
  \<open>determine_next_version\<close>, lines 144 to 158. \<open>directory_contents\<close> is the result of
  \<open>os.listdir\<close>. The slice \<open>filename[len(filename_prefix):-5]\<close> drops the prefix and the
  last five characters; a name that \<open>float\<close> rejects is skipped.
\<close>

definition snapshot_prefix :: "string \<Rightarrow> string" where
  "snapshot_prefix dataset_identifier = dataset_identifier @ ''_root_v''"

definition version_slice :: "string \<Rightarrow> string \<Rightarrow> string" where
  "version_slice filename_prefix filename =
     drop (length filename_prefix) (take (length filename - 5) filename)"

fun collect_versions :: "'v float_builtins \<Rightarrow> string \<Rightarrow> string list \<Rightarrow> 'v list" where
  "collect_versions F filename_prefix [] = []"
| "collect_versions F filename_prefix (filename # rest) =
     (if prefix filename_prefix filename \<and> suffix ''.json'' filename
      then (case float_of F (version_slice filename_prefix filename) of
              Some version_value \<Rightarrow> version_value # collect_versions F filename_prefix rest
            | None \<Rightarrow> collect_versions F filename_prefix rest)
      else collect_versions F filename_prefix rest)"

definition determine_next_version :: "'v float_builtins \<Rightarrow> string list \<Rightarrow> string \<Rightarrow> 'v" where
  "determine_next_version F directory_contents dataset_identifier =
     (let version_list = collect_versions F (snapshot_prefix dataset_identifier) directory_contents
      in case py_max (float_gt F) version_list of
           None \<Rightarrow> float_one F
         | Some greatest \<Rightarrow> add_tenth F greatest)"

text \<open>Line 123: the name of the file that receives the new snapshot.\<close>

definition root_storage_file :: "'v float_builtins \<Rightarrow> string list \<Rightarrow> string \<Rightarrow> string" where
  "root_storage_file F directory_contents dataset_name =
     dataset_name @ ''_root_v''
       @ format_1f F (determine_next_version F directory_contents dataset_name) @ ''.json''"

section \<open>The hash tree (module \<open>crypto_hash_tree\<close>)\<close>

text \<open>
  Modelled from the spec: the class \<open>TreeVertex\<close> of the module \<open>crypto_hash_tree\<close>,
  which is not among the sources. A vertex holds its digest and owns its children, which
  are absent for a leaf (specification, section 3, Node); the callers read the children
  as \<open>left_child\<close> and \<open>right_child\<close>.
\<close>

datatype vertex = Vertex (vertex_digest: digest) (left_child: "vertex option") (right_child: "vertex option")

text \<open>
  Modelled from the spec: the state of an \<open>IntegrityTreeStructure\<close> after a build, as
  the callers read it: the apex vertex and the ordered list of terminal vertices
  (specification, section 3, Tree).
\<close>

record integrity_tree =
  apex_vertex :: "vertex option"
  terminal_list :: "vertex list"

text \<open>
  Modelled from the spec: one round of pairwise reduction (section 4.4, step 3). The
  level is scanned from left to right in consecutive pairs, the left element stays
  left, and a trailing unpaired vertex is paired with itself.
\<close>

fun reduce_level :: "(digest \<Rightarrow> digest \<Rightarrow> digest) \<Rightarrow> vertex list \<Rightarrow> vertex list" where
  "reduce_level combine [] = []"
| "reduce_level combine [last_vertex] =
     [Vertex (combine (vertex_digest last_vertex) (vertex_digest last_vertex))
        (Some last_vertex) (Some last_vertex)]"
| "reduce_level combine (left # right # rest) =
     Vertex (combine (vertex_digest left) (vertex_digest right)) (Some left) (Some right)
       # reduce_level combine rest"

text \<open>
  Modelled from the spec: the reduction is repeated until one vertex remains (section
  4.4, steps 3 and 4). The result is the remaining vertices together with the number of
  rounds performed.
\<close>

function reduce_rounds :: "(digest \<Rightarrow> digest \<Rightarrow> digest) \<Rightarrow> vertex list \<Rightarrow> vertex list \<times> nat" where
  "reduce_rounds combine level =
     (if length level \<le> 1 then (level, 0)
      else (let (final, rounds) = reduce_rounds combine (reduce_level combine level)
            in (final, Suc rounds)))"
  by pat_completeness auto
termination
proof (relation "measure (\<lambda>(combine, level). length level)")
  show "wf (measure (\<lambda>(combine, level). length level))" by simp
next
  fix combine :: "digest \<Rightarrow> digest \<Rightarrow> digest" and level :: "vertex list"
  assume long: "\<not> length level \<le> 1"
  have halves: "length (reduce_level combine vs) = (length vs + 1) div 2" for vs
    by (induction combine vs rule: reduce_level.induct) simp_all
  from long show "((combine, reduce_level combine level), (combine, level))
      \<in> measure (\<lambda>(combine, level). length level)"
    by (simp add: halves)
qed

declare reduce_rounds.simps [simp del]

text \<open>
  Modelled from the spec: \<open>build_complete_tree\<close> of \<open>IntegrityTreeStructure\<close> (section
  4.4 and section 6, Build). It fails with \<open>EmptyInputError\<close> on an empty sequence;
  otherwise it makes one leaf per record, in input order, reduces the leaves to the apex
  and returns the apex digest and the peak memory. The instance's state before the call
  and the measured peak memory are inputs of the model, so that a result's independence
  of them can be stated.
\<close>

definition build_complete_tree ::
  "('r \<Rightarrow> digest) \<Rightarrow> (digest \<Rightarrow> digest \<Rightarrow> digest) \<Rightarrow> nat \<Rightarrow> integrity_tree \<Rightarrow> 'r list
     \<Rightarrow> py_error + ((digest \<times> nat) \<times> integrity_tree)" where
  "build_complete_tree leaf_hash combine peak_memory instance records =
     (if records = [] then Inl EmptyInputError
      else (let terminals = map (\<lambda>record. Vertex (leaf_hash record) None None) records;
                apex = hd (fst (reduce_rounds combine terminals))
            in Inr ((vertex_digest apex, peak_memory),
                    \<lparr>apex_vertex = Some apex, terminal_list = terminals\<rparr>)))"

text \<open>
  Modelled from the spec: the number of reduction rounds that Build performs on a
  sequence of records (section 4.4, step 4: "the tree height is the number of reduction
  rounds").
\<close>

definition build_rounds :: "('r \<Rightarrow> digest) \<Rightarrow> (digest \<Rightarrow> digest \<Rightarrow> digest) \<Rightarrow> 'r list \<Rightarrow> nat" where
  "build_rounds leaf_hash combine records =
     snd (reduce_rounds combine (map (\<lambda>record. Vertex (leaf_hash record) None None) records))"

section \<open>Tree construction command (\<open>command_interface.py\<close>)\<close>

text \<open>\<open>compute_tree_height\<close>, lines 160 to 165, and \<open>compute_vertex_count\<close>, lines 167 to 172.\<close>

fun compute_tree_height :: "vertex option \<Rightarrow> nat" where
  "compute_tree_height None = 0"
| "compute_tree_height (Some (Vertex d left right)) =
     (let left_height = compute_tree_height left;
          right_height = compute_tree_height right
      in 1 + max left_height right_height)"

fun compute_vertex_count :: "vertex option \<Rightarrow> nat" where
  "compute_vertex_count None = 0"
| "compute_vertex_count (Some (Vertex d left right)) =
     (let left_count = compute_vertex_count left;
          right_count = compute_vertex_count right
      in 1 + left_count + right_count)"

text \<open>
  The snapshot written by \<open>construct_verification_tree\<close> is a JSON object, an ordered
  list of keys with string or integer values.
\<close>

datatype json_value = JStr string | JInt int

type_synonym json_object = "(string \<times> json_value) list"

text \<open>
  What the command does: it prints a usage line, reports a missing or unreadable
  processed dataset, reports a failed construction, or writes a snapshot file.
\<close>

datatype construct_outcome =
    Usage
  | ProcessedNotLocated
  | ReadError
  | ConstructionFailed
  | Persisted string json_object

text \<open>
  The environment of the command: the processed dataset of a name (\<open>None\<close> when the
  file does not exist, \<open>Some None\<close> when reading it fails), the listing of the
  \<open>roots\<close> directory, and the clock.
\<close>

record 'r construct_env =
  processed_dataset :: "string \<Rightarrow> 'r list option option"
  roots_listing :: "string list"
  now_isoformat :: string

text \<open>
  \<open>construct_verification_tree\<close>, lines 85 to 142. \<open>build\<close> stands for the call
  \<open>hash_tree.build_complete_tree(record_set)\<close> on a fresh instance: it raises, or returns
  the apex hash (\<open>None\<close> for Python's \<open>None\<close>) and leaves the built tree in the
  instance. \<open>not apex_hash\<close> holds for \<open>None\<close> and for the empty string. The
  outcome \<open>Persisted\<close> carries the name of the file opened for writing and the object
  dumped into it; the printed report is left out, and writing the file is taken to
  succeed.
\<close>

definition construct_verification_tree ::
  "'v float_builtins \<Rightarrow> ('r list \<Rightarrow> py_error + (digest option \<times> integrity_tree))
     \<Rightarrow> 'r construct_env \<Rightarrow> string list \<Rightarrow> py_error + construct_outcome" where
  "construct_verification_tree F build env parameters =
     (case parameters of
        [dataset_name] \<Rightarrow>
          (case processed_dataset env dataset_name of
             None \<Rightarrow> Inr ProcessedNotLocated
           | Some None \<Rightarrow> Inr ReadError
           | Some (Some record_set) \<Rightarrow>
               (case build record_set of
                  Inl e \<Rightarrow> Inl e
                | Inr (None, hash_tree) \<Rightarrow> Inr ConstructionFailed
                | Inr (Some apex_hash, hash_tree) \<Rightarrow>
                    if apex_hash = [] then Inr ConstructionFailed
                    else (let leaf_count = length (terminal_list hash_tree);
                              structure_height = compute_tree_height (apex_vertex hash_tree);
                              apex_metadata =
                                [(''timestamp'', JStr (now_isoformat env)),
                                 (''root_hash'', JStr apex_hash),
                                 (''record_count'', JInt (int leaf_count)),
                                 (''dataset'', JStr dataset_name),
                                 (''tree_height'', JInt (int structure_height))]
                          in Inr (Persisted (root_storage_file F (roots_listing env) dataset_name)
                                     apex_metadata))))
      | _ \<Rightarrow> Inr Usage)"

text \<open>
  Modelled from the spec: the call \<open>build_complete_tree(record_set)\<close> on a new
  \<open>IntegrityTreeStructure\<close>, as the commands make it. The instance starts empty, and
  the apex digest of a successful build is the returned hash.
\<close>

definition spec_build ::
  "('r \<Rightarrow> digest) \<Rightarrow> (digest \<Rightarrow> digest \<Rightarrow> digest) \<Rightarrow> nat \<Rightarrow> 'r list
     \<Rightarrow> py_error + (digest option \<times> integrity_tree)" where
  "spec_build leaf_hash combine peak_memory record_set =
     (case build_complete_tree leaf_hash combine peak_memory
             \<lparr>apex_vertex = None, terminal_list = []\<rparr> record_set of
        Inl e \<Rightarrow> Inl e
      | Inr ((apex_hash, memory_consumed), hash_tree) \<Rightarrow> Inr (Some apex_hash, hash_tree))"

section \<open>Latest-snapshot selection (\<open>integrity_checker.py\<close>, \<open>proof_generator.py\<close>, \<open>anomaly_detector.py\<close>)\<close>

text \<open>
  The \<open>roots\<close> directory as the three commands read it: whether it exists, its listing,
  and for a file name the result of opening the file, \<open>json.load\<close> and
  \<open>.get("root_hash")\<close> (an error when opening or decoding raises, \<open>None\<close> when the
  key is absent).
\<close>

record roots_directory =
  roots_exists :: bool
  roots_files :: "string list"
  load_root_hash :: "string \<Rightarrow> py_error + digest option"

text \<open>
  The expression \<open>filename.split('_root_v')[1].split('.json')[0]\<close>, which all three
  commands use. An index outside the list of pieces raises \<open>IndexError\<close>, which the
  \<open>except ValueError\<close> around it does not catch.
\<close>

definition version_part :: "string \<Rightarrow> py_error + string" where
  "version_part filename =
     (case py_split ''_root_v'' filename of
        first # second # pieces \<Rightarrow>
          (case py_split ''.json'' second of
             [] \<Rightarrow> Inl IndexError
           | segment # others \<Rightarrow> Inr segment)
      | _ \<Rightarrow> Inl IndexError)"

text \<open>\<open>execute_integrity_check\<close>, lines 37 to 63.\<close>

fun check_version_loop ::
  "'v float_builtins \<Rightarrow> ('v \<times> string) list \<Rightarrow> string list \<Rightarrow> py_error + ('v \<times> string) list" where
  "check_version_loop F version_list [] = Inr version_list"
| "check_version_loop F version_list (filename # rest) =
     (case version_part filename of
        Inl e \<Rightarrow> Inl e
      | Inr version_string \<Rightarrow>
          (case float_of F version_string of
             Some version_value \<Rightarrow>
               check_version_loop F (version_list @ [(version_value, filename)]) rest
           | None \<Rightarrow> check_version_loop F version_list rest))"

definition check_latest_file ::
  "'v float_builtins \<Rightarrow> roots_directory \<Rightarrow> string \<Rightarrow> py_error + string option" where
  "check_latest_file F roots dataset_identifier =
     (if roots_exists roots then
        (let apex_file_collection =
               filter (\<lambda>filename. prefix (dataset_identifier @ ''_root_v'') filename
                                  \<and> suffix ''.json'' filename) (roots_files roots)
         in if apex_file_collection \<noteq> [] then
              (case check_version_loop F [] apex_file_collection of
                 Inl e \<Rightarrow> Inl e
               | Inr version_list \<Rightarrow>
                   (case py_max (\<lambda>x y. float_gt F (fst x) (fst y)) version_list of
                      None \<Rightarrow> Inr None
                    | Some latest \<Rightarrow> Inr (Some (snd latest))))
            else Inr None)
      else Inr None)"

definition check_stored_apex ::
  "'v float_builtins \<Rightarrow> roots_directory \<Rightarrow> string \<Rightarrow> py_error + digest option" where
  "check_stored_apex F roots dataset_identifier =
     (case check_latest_file F roots dataset_identifier of
        Inl e \<Rightarrow> Inl e
      | Inr None \<Rightarrow> Inr None
      | Inr (Some latest_version_file) \<Rightarrow> load_root_hash roots latest_version_file)"

text \<open>\<open>locate_and_verify_record\<close>, lines 75 to 101.\<close>

fun locate_version_loop ::
  "'v float_builtins \<Rightarrow> ('v \<times> string) list \<Rightarrow> string list \<Rightarrow> py_error + ('v \<times> string) list" where
  "locate_version_loop F version_mapping [] = Inr version_mapping"
| "locate_version_loop F version_mapping (filename # rest) =
     (case version_part filename of
        Inl e \<Rightarrow> Inl e
      | Inr version_segment \<Rightarrow>
          (case float_of F version_segment of
             None \<Rightarrow> locate_version_loop F version_mapping rest
           | Some version_number \<Rightarrow>
               locate_version_loop F (version_mapping @ [(version_number, filename)]) rest))"

definition locate_latest_file ::
  "'v float_builtins \<Rightarrow> roots_directory \<Rightarrow> string \<Rightarrow> py_error + string option" where
  "locate_latest_file F roots dataset_identifier =
     (if roots_exists roots then
        (let apex_file_list =
               filter (\<lambda>filename. prefix (dataset_identifier @ ''_root_v'') filename
                                  \<and> suffix ''.json'' filename) (roots_files roots)
         in if apex_file_list \<noteq> [] then
              (case locate_version_loop F [] apex_file_list of
                 Inl e \<Rightarrow> Inl e
               | Inr version_mapping \<Rightarrow>
                   (case py_max (\<lambda>x y. float_gt F (fst x) (fst y)) version_mapping of
                      None \<Rightarrow> Inr None
                    | Some most_recent \<Rightarrow> Inr (Some (snd most_recent))))
            else Inr None)
      else Inr None)"

definition locate_stored_apex ::
  "'v float_builtins \<Rightarrow> roots_directory \<Rightarrow> string \<Rightarrow> py_error + digest option" where
  "locate_stored_apex F roots dataset_identifier =
     (case locate_latest_file F roots dataset_identifier of
        Inl e \<Rightarrow> Inl e
      | Inr None \<Rightarrow> Inr None
      | Inr (Some most_recent_file) \<Rightarrow> load_root_hash roots most_recent_file)"

text \<open>
  \<open>run_tampering_detection\<close>, lines 73 to 99. Here reading the file is wrapped in
  \<open>try\<close> with \<open>except Exception: pass\<close>, so a file that cannot be read leaves the
  baseline hash at \<open>None\<close>.
\<close>

fun detect_version_loop ::
  "'v float_builtins \<Rightarrow> ('v \<times> string) list \<Rightarrow> string list \<Rightarrow> py_error + ('v \<times> string) list" where
  "detect_version_loop F version_data [] = Inr version_data"
| "detect_version_loop F version_data (apex_filename # rest) =
     (case version_part apex_filename of
        Inl e \<Rightarrow> Inl e
      | Inr version_str \<Rightarrow>
          (case float_of F version_str of
             Some version_num \<Rightarrow>
               detect_version_loop F (version_data @ [(version_num, apex_filename)]) rest
           | None \<Rightarrow> detect_version_loop F version_data rest))"

definition detect_latest_file ::
  "'v float_builtins \<Rightarrow> roots_directory \<Rightarrow> string \<Rightarrow> py_error + string option" where
  "detect_latest_file F roots dataset_identifier =
     (if roots_exists roots then
        (let apex_files =
               filter (\<lambda>f. prefix (dataset_identifier @ ''_root_v'') f \<and> suffix ''.json'' f)
                 (roots_files roots)
         in if apex_files \<noteq> [] then
              (case detect_version_loop F [] apex_files of
                 Inl e \<Rightarrow> Inl e
               | Inr version_data \<Rightarrow>
                   (case py_max (\<lambda>x y. float_gt F (fst x) (fst y)) version_data of
                      None \<Rightarrow> Inr None
                    | Some latest \<Rightarrow> Inr (Some (snd latest))))
            else Inr None)
      else Inr None)"

definition detect_stored_apex ::
  "'v float_builtins \<Rightarrow> roots_directory \<Rightarrow> string \<Rightarrow> py_error + digest option" where
  "detect_stored_apex F roots dataset_identifier =
     (case detect_latest_file F roots dataset_identifier of
        Inl e \<Rightarrow> Inl e
      | Inr None \<Rightarrow> Inr None
      | Inr (Some latest_apex_file) \<Rightarrow>
          (case load_root_hash roots latest_apex_file of
             Inl e \<Rightarrow> Inr None
           | Inr baseline_apex_hash \<Rightarrow> Inr baseline_apex_hash))"

text \<open>
  The version of a file name, for a dataset, in which the list that the selectors
  collect is described: the float that its segment between \<open>_root_v\<close> and \<open>.json\<close>
  parses as, and \<open>None\<close> for a name that is not a snapshot of the dataset or does not
  parse.
\<close>

definition snapshot_version :: "'v float_builtins \<Rightarrow> string \<Rightarrow> string \<Rightarrow> 'v option" where
  "snapshot_version F dataset_identifier filename =
     (if prefix (dataset_identifier @ ''_root_v'') filename \<and> suffix ''.json'' filename
      then (case version_part filename of Inl e \<Rightarrow> None | Inr segment \<Rightarrow> float_of F segment)
      else None)"

text \<open>
  Python's \<open>>\<close> on floats is transitive and asymmetric, also in the presence of \<open>nan\<close>
  (which compares greater than nothing, and nothing greater than it).
\<close>

definition strict_order :: "('v \<Rightarrow> 'v \<Rightarrow> bool) \<Rightarrow> bool" where
  "strict_order gt = ((\<forall>a b c. gt a b \<and> gt b c \<longrightarrow> gt a c) \<and> (\<forall>a b. gt a b \<longrightarrow> \<not> gt b a))"

section \<open>Python floats\<close>

text \<open>
  Concrete inputs are evaluated, and the claims about version numbers are proved, for
  Python's own floats. A float is an IEEE-754 double: a finite number, negative zero, an
  infinity or \<open>nan\<close>. A finite float other than negative zero is represented by the
  rational number it denotes, so \<open>Finite 0\<close> is positive zero.
\<close>

datatype pyfloat = Finite rat | NegZero | PosInf | NegInf | NaN

fun is_finite :: "pyfloat \<Rightarrow> bool" where
  "is_finite (Finite a) = True"
| "is_finite NegZero = True"
| "is_finite other = False"

fun float_value :: "pyfloat \<Rightarrow> rat" where
  "float_value (Finite a) = a"
| "float_value other = 0"

text \<open>
  Rounding to the nearest integer, a tie going to the even one: the rounding of the
  double arithmetic and of the format \<open>.1f\<close>.
\<close>

definition round_half_even :: "rat \<Rightarrow> int" where
  "round_half_even q =
     (let f = \<lfloor>q\<rfloor>; d = q - of_int f
      in if d < 1 / 2 then f else if 1 / 2 < d then f + 1 else if even f then f else f + 1)"

text \<open>
  The exponent \<open>k\<close> with \<open>2^k \<le> |q| < 2^(k+1)\<close> of a rational number other than zero,
  found from the lengths in bits of its numerator and denominator.
\<close>

fun bit_length :: "nat \<Rightarrow> nat" where
  "bit_length n = (if n = 0 then 0 else Suc (bit_length (n div 2)))"

declare bit_length.simps [simp del]

definition binary_exponent :: "rat \<Rightarrow> int" where
  "binary_exponent q =
     (let (n, d) = quotient_of \<bar>q\<bar>;
          k = int (bit_length (nat n)) - int (bit_length (nat d))
      in if power_int 2 k \<le> \<bar>q\<bar> then k else k - 1)"

text \<open>
  The double nearest to a rational number. A double has 53 significant bits, so the
  doubles around \<open>q\<close> are the multiples of \<open>2^(k-52)\<close>; below the normal range they are
  the multiples of \<open>2^(-1074)\<close>. A result of magnitude \<open>2^1024\<close> or more is an infinity,
  and a negative number that rounds to zero gives negative zero.
\<close>

definition ulp_exponent :: "rat \<Rightarrow> int" where
  "ulp_exponent q = max (binary_exponent q - 52) (- 1074)"

definition round_to_double :: "rat \<Rightarrow> pyfloat" where
  "round_to_double q =
     (if q = 0 then Finite 0
      else let r = of_int (round_half_even (q / power_int 2 (ulp_exponent q)))
                     * power_int 2 (ulp_exponent q)
           in if 2 ^ 1024 \<le> \<bar>r\<bar> then (if 0 < q then PosInf else NegInf)
              else if r = 0 then (if q < 0 then NegZero else Finite 0)
              else Finite r)"

text \<open>
  \<open>a > b\<close> on floats: false whenever one side is \<open>nan\<close>; the two zeros are equal.
\<close>

fun py_float_gt :: "pyfloat \<Rightarrow> pyfloat \<Rightarrow> bool" where
  "py_float_gt NaN b = False"
| "py_float_gt a NaN = False"
| "py_float_gt a PosInf = False"
| "py_float_gt PosInf b = True"
| "py_float_gt NegInf b = False"
| "py_float_gt a NegInf = True"
| "py_float_gt a b = (float_value b < float_value a)"

text \<open>
  \<open>v + 0.1\<close>. The literal \<open>0.1\<close> is the double \<open>3602879701896397 / 2^55\<close>; the exact sum is
  rounded to a double. The infinities and \<open>nan\<close> absorb the addition.
\<close>

definition tenth :: rat where
  "tenth = 3602879701896397 / 36028797018963968"

fun py_add_tenth :: "pyfloat \<Rightarrow> pyfloat" where
  "py_add_tenth (Finite a) = round_to_double (a + tenth)"
| "py_add_tenth NegZero = round_to_double tenth"
| "py_add_tenth PosInf = PosInf"
| "py_add_tenth NegInf = NegInf"
| "py_add_tenth NaN = NaN"

text \<open>
  \<open>float(s)\<close> on a string of characters with codes 0 to 255 (among these the decimal
  digits are \<open>0\<close> to \<open>9\<close>). Blanks at both ends are dropped: tab, line feed, vertical tab,
  form feed, carriage return and space, and the characters 133 and 160, which Python
  turns into spaces first. A string that is empty then is rejected. An underscore is
  allowed between two digits only. What is left is an optional sign followed by
  \<open>inf\<close>, \<open>infinity\<close> or \<open>nan\<close> in any case, or by a decimal number: digits with at most
  one point and at least one digit, and an optional exponent (\<open>e\<close> or \<open>E\<close>, an optional
  sign, at least one digit). The value of a decimal number is rounded to a double;
  \<open>None\<close> stands for \<open>ValueError\<close>.
\<close>

definition is_digit :: "char \<Rightarrow> bool" where
  "is_digit c = (c \<in> set ''0123456789'')"

definition is_blank :: "char \<Rightarrow> bool" where
  "is_blank c = (of_char c \<in> {9, 10, 11, 12, 13, 32, 133, 160 :: nat})"

fun drop_underscores :: "char \<Rightarrow> string \<Rightarrow> string option" where
  "drop_underscores prev [] = (if prev = CHR ''_'' then None else Some [])"
| "drop_underscores prev (c # cs) =
     (if c = CHR ''_''
      then if is_digit prev then drop_underscores c cs else None
      else if prev = CHR ''_'' \<and> \<not> is_digit c then None
      else map_option ((#) c) (drop_underscores c cs))"

definition ascii_lower :: "char \<Rightarrow> char" where
  "ascii_lower c = (if of_char c \<in> {65 .. 90 :: nat} then char_of (of_char c + 32 :: nat) else c)"

definition split_sign :: "string \<Rightarrow> bool \<times> string" where
  "split_sign s =
     (case s of
        [] \<Rightarrow> (False, [])
      | c # cs \<Rightarrow>
          if c = CHR ''-'' then (True, cs) else if c = CHR ''+'' then (False, cs) else (False, s))"

definition parse_inf_or_nan :: "string \<Rightarrow> pyfloat option" where
  "parse_inf_or_nan s =
     (let (negative, body) = split_sign s; word = map ascii_lower body
      in if word = ''inf'' \<or> word = ''infinity'' then Some (if negative then NegInf else PosInf)
         else if word = ''nan'' then Some NaN
         else None)"

definition parse_exponent :: "string \<Rightarrow> int option" where
  "parse_exponent s =
     (case s of
        [] \<Rightarrow> Some 0
      | c # rest \<Rightarrow>
          if c = CHR ''e'' \<or> c = CHR ''E''
          then (let (negative, digits) = split_sign rest
                in if digits \<noteq> [] \<and> list_all is_digit digits
                   then Some (if negative then - int (decode_decimal digits)
                              else int (decode_decimal digits))
                   else None)
          else None)"

definition parse_number :: "string \<Rightarrow> pyfloat option" where
  "parse_number s =
     (let (negative, body) = split_sign s;
          whole = takeWhile is_digit body;
          after_whole = dropWhile is_digit body;
          (fraction, after_fraction) =
            (case after_whole of
               [] \<Rightarrow> ([], [])
             | c # cs \<Rightarrow>
                 if c = CHR ''.'' then (takeWhile is_digit cs, dropWhile is_digit cs)
                 else ([], after_whole))
      in if whole = [] \<and> fraction = [] then parse_inf_or_nan s
         else (case parse_exponent after_fraction of
                 None \<Rightarrow> None
               | Some exponent \<Rightarrow>
                   (let mantissa = decode_decimal (whole @ fraction);
                        magnitude = of_nat mantissa * power_int 10 (exponent - int (length fraction))
                    in if mantissa = 0 then Some (if negative then NegZero else Finite 0)
                       else Some (round_to_double (if negative then - magnitude else magnitude)))))"

definition py_float_of :: "string \<Rightarrow> pyfloat option" where
  "py_float_of s =
     (let stripped = rev (dropWhile is_blank (rev (dropWhile is_blank s)))
      in if stripped = [] then None
         else (case drop_underscores (CHR 0x00) stripped of
                 None \<Rightarrow> None
               | Some cleaned \<Rightarrow> parse_number cleaned))"

text \<open>
  \<open>f"{v:.1f}"\<close>: the value rounded to one decimal place, a tie going to the even digit,
  with a minus sign for a negative value and for negative zero; \<open>inf\<close>, \<open>-inf\<close> and
  \<open>nan\<close> for the others.
\<close>

fun py_format_1f :: "pyfloat \<Rightarrow> string" where
  "py_format_1f (Finite r) =
     (let tenths = nat (round_half_even (\<bar>r\<bar> * 10))
      in (if r < 0 then ''-'' else []) @ decimal_digits (tenths div 10) @ ''.''
           @ [digit_char (tenths mod 10)])"
| "py_format_1f NegZero = ''-0.0''"
| "py_format_1f PosInf = ''inf''"
| "py_format_1f NegInf = ''-inf''"
| "py_format_1f NaN = ''nan''"

definition py_builtins :: "pyfloat float_builtins" where
  "py_builtins =
     \<lparr>float_of = py_float_of, float_gt = py_float_gt, float_one = Finite 1,
      add_tenth = py_add_tenth, format_1f = py_format_1f\<rparr>"

text \<open>
  Two notions for the proofs about rounding: the multiples of \<open>2^e\<close>, and the number
  with one decimal place that the format renders.
\<close>

definition on_grid :: "rat \<Rightarrow> int \<Rightarrow> bool" where
  "on_grid a e = (\<exists>A. a = of_int A * power_int 2 e)"

definition one_decimal :: "rat \<Rightarrow> rat" where
  "one_decimal r = (if r < 0 then - 1 else 1) * of_nat (nat (round_half_even (\<bar>r\<bar> * 10))) / 10"

section \<open>Example inputs\<close>

text \<open>
  The inputs at which the theorems below are evaluated: an environment of the
  construction command that holds one processed dataset, \<open>ds\<close>, and a \<open>roots\<close>
  directory that lists a snapshot name with the version \<open>nan\<close> before two with the
  versions 1.0 and 2.0.
\<close>

definition example_env :: "string list \<Rightarrow> string list \<Rightarrow> string construct_env" where
  "example_env records listing =
     \<lparr>processed_dataset = (\<lambda>name. if name = ''ds'' then Some (Some records) else None),
      roots_listing = listing, now_isoformat = ''2024-01-01T00:00:00''\<rparr>"

definition nan_roots :: roots_directory where
  "nan_roots =
     \<lparr>roots_exists = True,
      roots_files = [''ds_root_vnan.json'', ''ds_root_v1.0.json'', ''ds_root_v2.0.json''],
      load_root_hash = (\<lambda>f. if f = ''ds_root_vnan.json'' then Inr (Some ''apex-of-nan'')
                             else if f = ''ds_root_v1.0.json'' then Inr (Some ''apex-of-1.0'')
                             else if f = ''ds_root_v2.0.json'' then Inr (Some ''apex-of-2.0'')
                             else Inl FileNotFoundError)\<rparr>"

section \<open>Properties of path verification\<close>

lemma recompute_apex_foldl:
  "recompute_apex combine running path = foldl (spec_path_step combine) running path"
  by (induction path arbitrary: running) (auto simp: spec_path_step_def)

lemma benchmark_recompute_apex_foldl:
  "benchmark_recompute_apex combine running path = foldl (spec_path_step combine) running path"
  by (induction path arbitrary: running) (auto simp: spec_path_step_def)

text \<open>
  Claim C1. For every leaf digest and every authentication path, the loop of
  \<open>locate_and_verify_record\<close> (and the copy of it in the benchmark) computes the fold of
  the specification over the path, in order and starting from the leaf digest, and the
  record is reported as authenticated exactly when that fold equals the stored apex.
\<close>

theorem verifier_is_path_fold:
  "recompute_apex combine leaf path = foldl (spec_path_step combine) leaf path
   \<and> benchmark_recompute_apex combine leaf path = foldl (spec_path_step combine) leaf path
   \<and> (verification_verdict combine leaf path stored = Authenticated)
       = spec_verify combine leaf path stored
   \<and> (verification_verdict combine leaf path stored = AuthenticationFailed)
       = (\<not> spec_verify combine leaf path stored)"
  by (simp add: recompute_apex_foldl benchmark_recompute_apex_foldl
      verification_verdict_def spec_verify_def)

section \<open>Properties of the apex comparison\<close>

text \<open>
  Claim C2. For every stored and every rebuilt apex digest, the integrity check returns
  normally with a verdict; the verdict is "confirmed" exactly when the two strings are
  equal and "compromised" otherwise. A mismatch is a reported result, not an error.
\<close>

theorem integrity_comparison_is_equality:
  "(integrity_comparison stored (Some current) = Inr IntegrityConfirmed) = (stored = current)
   \<and> (integrity_comparison stored (Some current) = Inr IntegrityCompromised) = (stored \<noteq> current)
   \<and> integrity_comparison stored None = Inr IntegrityCompromised
   \<and> (\<exists>verdict. integrity_comparison stored rebuilt = Inr verdict)"
  by (simp add: integrity_comparison_def)

section \<open>Properties of the tree builder\<close>

lemma compute_tree_height_Some:
  "compute_tree_height (Some v) =
     1 + max (compute_tree_height (left_child v)) (compute_tree_height (right_child v))"
  by (cases v) simp

lemma length_reduce_level: "length (reduce_level combine level) = (length level + 1) div 2"
  by (induction combine level rule: reduce_level.induct) simp_all

lemma reduce_level_heights:
  "\<forall>v \<in> set level. compute_tree_height (Some v) = h \<Longrightarrow>
   \<forall>v \<in> set (reduce_level combine level). compute_tree_height (Some v) = Suc h"
  by (induction combine level rule: reduce_level.induct) simp_all

lemma reduce_rounds_single: "reduce_rounds combine [v] = ([v], 0)"
  by (subst reduce_rounds.simps) simp

lemma reduce_rounds_step:
  "\<not> length level \<le> 1 \<Longrightarrow>
   reduce_rounds combine level =
     (fst (reduce_rounds combine (reduce_level combine level)),
      Suc (snd (reduce_rounds combine (reduce_level combine level))))"
  by (subst reduce_rounds.simps) (simp add: case_prod_beta)

lemma reduce_rounds_apex:
  "level \<noteq> [] \<Longrightarrow> \<forall>v \<in> set level. compute_tree_height (Some v) = h \<Longrightarrow>
   \<exists>apex. reduce_rounds combine level = ([apex], snd (reduce_rounds combine level))
     \<and> compute_tree_height (Some apex) = h + snd (reduce_rounds combine level)"
proof (induction combine level arbitrary: h rule: reduce_rounds.induct)
  case (1 combine level)
  show ?case
  proof (cases "length level \<le> 1")
    case True
    with "1.prems" obtain v where "level = [v]" by (cases level) auto
    with "1.prems" show ?thesis by (simp add: reduce_rounds_single)
  next
    case False
    let ?next = "reduce_level combine level"
    have "length ?next = (length level + 1) div 2" by (rule length_reduce_level)
    with False have ne: "?next \<noteq> []" by auto
    have hs: "\<forall>v \<in> set ?next. compute_tree_height (Some v) = Suc h"
      using "1.prems"(2) by (rule reduce_level_heights)
    from "1.IH" [OF False ne hs] obtain apex where
      a: "reduce_rounds combine ?next = ([apex], snd (reduce_rounds combine ?next))"
      and b: "compute_tree_height (Some apex) = Suc h + snd (reduce_rounds combine ?next)"
      by blast
    have "reduce_rounds combine level = ([apex], Suc (snd (reduce_rounds combine ?next)))"
      using reduce_rounds_step [OF False, of combine] a by (metis fst_conv)
    with b show ?thesis by simp
  qed
qed

lemma reduce_rounds_power_of_two:
  "length level = 2 ^ k \<Longrightarrow> snd (reduce_rounds combine level) = k"
proof (induction k arbitrary: level)
  case 0
  then obtain v where "level = [v]" by (cases level) auto
  then show ?case by (simp add: reduce_rounds_single)
next
  case (Suc k)
  have "(1::nat) \<le> 2 ^ k" by simp
  then have "(2::nat) \<le> 2 ^ Suc k" by simp
  with Suc.prems have long: "\<not> length level \<le> 1" by linarith
  have "length (reduce_level combine level) = 2 ^ k"
    using Suc.prems by (simp add: length_reduce_level)
  then have "snd (reduce_rounds combine (reduce_level combine level)) = k" by (rule Suc.IH)
  then show ?case using reduce_rounds_step [OF long, of combine] by simp
qed

lemma build_height:
  assumes "records \<noteq> []"
  shows "\<exists>apex. build_complete_tree leaf_hash combine peak_memory instance records
           = Inr ((vertex_digest apex, peak_memory),
                  \<lparr>apex_vertex = Some apex,
                   terminal_list = map (\<lambda>record. Vertex (leaf_hash record) None None) records\<rparr>)
         \<and> compute_tree_height (Some apex) = Suc (build_rounds leaf_hash combine records)"
proof -
  let ?ts = "map (\<lambda>record. Vertex (leaf_hash record) None None) records"
  have ne: "?ts \<noteq> []" using assms by simp
  have hs: "\<forall>v \<in> set ?ts. compute_tree_height (Some v) = 1" by auto
  from reduce_rounds_apex [OF ne hs] obtain apex where
    a: "reduce_rounds combine ?ts = ([apex], snd (reduce_rounds combine ?ts))"
    and b: "compute_tree_height (Some apex) = 1 + snd (reduce_rounds combine ?ts)"
    by blast
  from a have "hd (fst (reduce_rounds combine ?ts)) = apex" by (metis fst_conv list.sel(1))
  with assms b show ?thesis
    by (simp add: build_complete_tree_def build_rounds_def Let_def)
qed

text \<open>
  Claim C4. The builder fails exactly on the empty sequence, and then with
  \<open>EmptyInputError\<close>; on every other sequence it returns a result, and on a sequence of
  one record the apex digest is that record's leaf digest.
\<close>

theorem build_fails_only_on_empty_input:
  "(build_complete_tree leaf_hash combine peak_memory instance records = Inl EmptyInputError)
     = (records = [])
   \<and> (\<exists>e. build_complete_tree leaf_hash combine peak_memory instance records = Inl e)
     = (records = [])
   \<and> (\<exists>result. build_complete_tree leaf_hash combine peak_memory instance records = Inr result)
     = (records \<noteq> [])
   \<and> build_complete_tree leaf_hash combine peak_memory instance [record]
     = Inr ((leaf_hash record, peak_memory),
            \<lparr>apex_vertex = Some (Vertex (leaf_hash record) None None),
             terminal_list = [Vertex (leaf_hash record) None None]\<rparr>)"
  by (simp add: build_complete_tree_def Let_def reduce_rounds_single)

section \<open>Properties of the construction command\<close>

lemma format_one: "format_1f py_builtins (float_one py_builtins) = ''1.0''"
  by (simp add: py_builtins_def round_half_even_def Let_def decimal_digits.simps digit_char_def)

lemma first_snapshot_name: "root_storage_file py_builtins [] ''ds'' = ''ds_root_v1.0.json''"
  using format_one
  by (simp add: root_storage_file_def determine_next_version_def py_max_def)

lemma build_two:
  "spec_build id append 0 [''a'', ''b''] =
     Inr (Some ''ab'',
          \<lparr>apex_vertex = Some (Vertex ''ab'' (Some (Vertex ''a'' None None)) (Some (Vertex ''b'' None None))),
           terminal_list = [Vertex ''a'' None None, Vertex ''b'' None None]\<rparr>)"
  by (simp add: spec_build_def build_complete_tree_def reduce_rounds.simps)

lemma rounds_two: "build_rounds id append [''a'', ''b''] = 1"
  by (simp add: build_rounds_def reduce_rounds.simps)

text \<open>
  Claim C3, as stated, fails: for two records the builder performs one reduction round,
  and the command persists the tree height 2, since \<open>compute_tree_height\<close> counts the
  vertices on the longest path from the apex down to a leaf (a single leaf has height 1).
\<close>

theorem height_of_two_records_counterexample:
  "construct_verification_tree py_builtins (spec_build id append 0) (example_env [''a'', ''b''] []) [''ds'']
     = Inr (Persisted ''ds_root_v1.0.json''
         [(''timestamp'', JStr ''2024-01-01T00:00:00''), (''root_hash'', JStr ''ab''),
          (''record_count'', JInt 2), (''dataset'', JStr ''ds''), (''tree_height'', JInt 2)])
   \<and> build_rounds id append [''a'', ''b''] = 1"
  using build_two rounds_two first_snapshot_name
  by (simp add: construct_verification_tree_def example_env_def)

lemma construct_persisted:
  assumes "construct_verification_tree F build env parameters = Inr (Persisted file snapshot)"
  shows "\<exists>dataset_name record_set apex_hash hash_tree.
           parameters = [dataset_name]
         \<and> processed_dataset env dataset_name = Some (Some record_set)
         \<and> build record_set = Inr (Some apex_hash, hash_tree)
         \<and> apex_hash \<noteq> []
         \<and> file = root_storage_file F (roots_listing env) dataset_name
         \<and> snapshot = [(''timestamp'', JStr (now_isoformat env)), (''root_hash'', JStr apex_hash),
              (''record_count'', JInt (int (length (terminal_list hash_tree)))),
              (''dataset'', JStr dataset_name),
              (''tree_height'', JInt (int (compute_tree_height (apex_vertex hash_tree))))]"
  using assms
  by (auto simp: construct_verification_tree_def Let_def
      split: list.splits option.splits sum.splits prod.splits if_splits)

lemma spec_build_Inr:
  "spec_build leaf_hash combine peak_memory records = Inr (apex_hash, hash_tree) \<Longrightarrow>
   records \<noteq> [] \<and>
   compute_tree_height (apex_vertex hash_tree) = Suc (build_rounds leaf_hash combine records)"
proof -
  assume built: "spec_build leaf_hash combine peak_memory records = Inr (apex_hash, hash_tree)"
  then have ne: "records \<noteq> []"
    by (auto simp: spec_build_def build_complete_tree_def split: if_splits)
  from build_height [OF ne, of leaf_hash combine peak_memory "\<lparr>apex_vertex = None, terminal_list = []\<rparr>"]
  obtain apex where
    "build_complete_tree leaf_hash combine peak_memory \<lparr>apex_vertex = None, terminal_list = []\<rparr> records
       = Inr ((vertex_digest apex, peak_memory),
              \<lparr>apex_vertex = Some apex,
               terminal_list = map (\<lambda>record. Vertex (leaf_hash record) None None) records\<rparr>)"
    and h: "compute_tree_height (Some apex) = Suc (build_rounds leaf_hash combine records)"
    by blast
  with built have "apex_vertex hash_tree = Some apex" by (auto simp: spec_build_def)
  with h ne show ?thesis by simp
qed

text \<open>
  Claim C3, amended. For every successfully built tree, the height that
  \<open>compute_tree_height\<close> computes over the apex vertex, and that the construction command
  persists as \<open>tree_height\<close>, is the number of reduction rounds of the build plus one;
  for a record count \<open>2 ^ k\<close> it is \<open>k + 1\<close>.
\<close>

theorem tree_height_is_rounds_plus_one:
  assumes "processed_dataset env dataset_name = Some (Some records)"
    and "construct_verification_tree F (spec_build leaf_hash combine peak_memory) env [dataset_name]
           = Inr (Persisted file snapshot)"
  shows "map_of snapshot ''tree_height''
           = Some (JInt (int (build_rounds leaf_hash combine records) + 1))
       \<and> (\<forall>k. length records = 2 ^ k \<longrightarrow> map_of snapshot ''tree_height'' = Some (JInt (int k + 1)))"
proof -
  from construct_persisted [OF assms(2)] assms(1) obtain apex_hash hash_tree where
    built: "spec_build leaf_hash combine peak_memory records = Inr (Some apex_hash, hash_tree)"
    and snap: "map_of snapshot ''tree_height''
                 = Some (JInt (int (compute_tree_height (apex_vertex hash_tree))))"
    by auto
  from spec_build_Inr [OF built]
  have h: "compute_tree_height (apex_vertex hash_tree) = Suc (build_rounds leaf_hash combine records)"
    by simp
  have "build_rounds leaf_hash combine records = k" if "length records = 2 ^ k" for k
    using that by (simp add: build_rounds_def reduce_rounds_power_of_two)
  with h snap show ?thesis by auto
qed

lemma build_four:
  "spec_build id append 0 [''a'', ''b'', ''c'', ''d''] =
     Inr (Some ''abcd'',
          \<lparr>apex_vertex = Some (Vertex ''abcd''
             (Some (Vertex ''ab'' (Some (Vertex ''a'' None None)) (Some (Vertex ''b'' None None))))
             (Some (Vertex ''cd'' (Some (Vertex ''c'' None None)) (Some (Vertex ''d'' None None))))),
           terminal_list = [Vertex ''a'' None None, Vertex ''b'' None None,
                            Vertex ''c'' None None, Vertex ''d'' None None]\<rparr>)"
  by (simp add: spec_build_def build_complete_tree_def reduce_rounds.simps)

lemma construct_four:
  "construct_verification_tree py_builtins (spec_build id append 0)
      (example_env [''a'', ''b'', ''c'', ''d''] []) [''ds'']
     = Inr (Persisted ''ds_root_v1.0.json''
         [(''timestamp'', JStr ''2024-01-01T00:00:00''), (''root_hash'', JStr ''abcd''),
          (''record_count'', JInt 4), (''dataset'', JStr ''ds''), (''tree_height'', JInt 3)])"
  using build_four first_snapshot_name
  by (simp add: construct_verification_tree_def example_env_def)

text \<open>The amended claim C3 at four records: two rounds, persisted height three.\<close>

theorem tree_height_is_rounds_plus_one_witness:
  "processed_dataset (example_env [''a'', ''b'', ''c'', ''d''] []) ''ds''
     = Some (Some [''a'', ''b'', ''c'', ''d''])
   \<and> construct_verification_tree py_builtins (spec_build id append 0)
        (example_env [''a'', ''b'', ''c'', ''d''] []) [''ds'']
       = Inr (Persisted ''ds_root_v1.0.json''
           [(''timestamp'', JStr ''2024-01-01T00:00:00''), (''root_hash'', JStr ''abcd''),
            (''record_count'', JInt 4), (''dataset'', JStr ''ds''), (''tree_height'', JInt 3)])
   \<and> length [''a'', ''b'', ''c'', ''d''] = 2 ^ 2
   \<and> build_rounds id append [''a'', ''b'', ''c'', ''d''] = 2
   \<and> map_of [(''timestamp'', JStr ''2024-01-01T00:00:00''), (''root_hash'', JStr ''abcd''),
            (''record_count'', JInt 4), (''dataset'', JStr ''ds''), (''tree_height'', JInt 3)]
        ''tree_height'' = Some (JInt (int 2 + 1))"
proof -
  have p: "processed_dataset (example_env [''a'', ''b'', ''c'', ''d''] []) ''ds''
     = Some (Some [''a'', ''b'', ''c'', ''d''])"
    by (simp add: example_env_def)
  have r: "build_rounds id append [''a'', ''b'', ''c'', ''d''] = 2"
    by (simp add: build_rounds_def reduce_rounds.simps)
  from tree_height_is_rounds_plus_one [OF p construct_four] p construct_four r
  show ?thesis by simp
qed


text \<open>
  Claim C8. Every snapshot that the construction command persists has exactly the keys
  \<open>timestamp\<close>, \<open>root_hash\<close>, \<open>record_count\<close>, \<open>dataset\<close> and \<open>tree_height\<close>; its
  \<open>root_hash\<close> is the apex hash that the build of this run returned, and its
  \<open>record_count\<close> is the number of terminal vertices of the built tree.
\<close>

theorem snapshot_has_five_keys:
  assumes "construct_verification_tree F build env parameters = Inr (Persisted file snapshot)"
  shows "\<exists>dataset_name record_set apex_hash hash_tree.
           parameters = [dataset_name]
         \<and> processed_dataset env dataset_name = Some (Some record_set)
         \<and> build record_set = Inr (Some apex_hash, hash_tree)
         \<and> map fst snapshot
             = [''timestamp'', ''root_hash'', ''record_count'', ''dataset'', ''tree_height'']
         \<and> map_of snapshot ''root_hash'' = Some (JStr apex_hash)
         \<and> map_of snapshot ''record_count'' = Some (JInt (int (length (terminal_list hash_tree))))
         \<and> map_of snapshot ''dataset'' = Some (JStr dataset_name)
         \<and> map_of snapshot ''tree_height''
             = Some (JInt (int (compute_tree_height (apex_vertex hash_tree))))"
proof -
  from construct_persisted [OF assms] obtain dataset_name record_set apex_hash hash_tree where
    "parameters = [dataset_name]"
    "processed_dataset env dataset_name = Some (Some record_set)"
    "build record_set = Inr (Some apex_hash, hash_tree)"
    "snapshot = [(''timestamp'', JStr (now_isoformat env)), (''root_hash'', JStr apex_hash),
       (''record_count'', JInt (int (length (terminal_list hash_tree)))),
       (''dataset'', JStr dataset_name),
       (''tree_height'', JInt (int (compute_tree_height (apex_vertex hash_tree))))]"
    by blast
  then show ?thesis by simp
qed

lemma build_three:
  "spec_build id append 0 [''a'', ''b'', ''c''] =
     Inr (Some ''abcc'',
          \<lparr>apex_vertex = Some (Vertex ''abcc''
             (Some (Vertex ''ab'' (Some (Vertex ''a'' None None)) (Some (Vertex ''b'' None None))))
             (Some (Vertex ''cc'' (Some (Vertex ''c'' None None)) (Some (Vertex ''c'' None None))))),
           terminal_list = [Vertex ''a'' None None, Vertex ''b'' None None,
                            Vertex ''c'' None None]\<rparr>)"
  by (simp add: spec_build_def build_complete_tree_def reduce_rounds.simps)

lemma construct_three:
  "construct_verification_tree py_builtins (spec_build id append 0)
      (example_env [''a'', ''b'', ''c''] []) [''ds'']
     = Inr (Persisted ''ds_root_v1.0.json''
         [(''timestamp'', JStr ''2024-01-01T00:00:00''), (''root_hash'', JStr ''abcc''),
          (''record_count'', JInt 3), (''dataset'', JStr ''ds''), (''tree_height'', JInt 3)])"
  using build_three first_snapshot_name
  by (simp add: construct_verification_tree_def example_env_def)

text \<open>Claim C8 at a run of the command over three records.\<close>

theorem snapshot_has_five_keys_witness:
  "construct_verification_tree py_builtins (spec_build id append 0)
      (example_env [''a'', ''b'', ''c''] []) [''ds'']
     = Inr (Persisted ''ds_root_v1.0.json''
         [(''timestamp'', JStr ''2024-01-01T00:00:00''), (''root_hash'', JStr ''abcc''),
          (''record_count'', JInt 3), (''dataset'', JStr ''ds''), (''tree_height'', JInt 3)])
   \<and> map fst [(''timestamp'', JStr ''2024-01-01T00:00:00''), (''root_hash'', JStr ''abcc''),
          (''record_count'', JInt 3), (''dataset'', JStr ''ds''), (''tree_height'', JInt 3)]
     = [''timestamp'', ''root_hash'', ''record_count'', ''dataset'', ''tree_height'']
   \<and> map_of [(''timestamp'', JStr ''2024-01-01T00:00:00''), (''root_hash'', JStr ''abcc''),
          (''record_count'', JInt 3), (''dataset'', JStr ''ds''), (''tree_height'', JInt 3)]
        ''root_hash'' = Some (JStr ''abcc'')"
  using snapshot_has_five_keys [OF construct_three] construct_three by simp

section \<open>Properties of import and sanitation\<close>

lemma dedup_from_filter:
  "dedup_from key seen xs = first_occurrences key (filter (\<lambda>x. key x \<notin> seen) xs)"
proof (induction xs arbitrary: seen rule: length_induct)
  case (1 xs)
  show ?case
  proof (cases xs)
    case Nil then show ?thesis by simp
  next
    case (Cons x rest)
    show ?thesis
    proof (cases "key x \<in> seen")
      case True
      with Cons 1 show ?thesis by simp
    next
      case False
      have "dedup_from key (insert (key x) seen) rest
          = first_occurrences key (filter (\<lambda>y. key y \<notin> insert (key x) seen) rest)"
        using 1 Cons by simp
      moreover have "filter (\<lambda>y. key y \<notin> insert (key x) seen) rest
          = filter (\<lambda>y. key y \<noteq> key x) (filter (\<lambda>y. key y \<notin> seen) rest)"
        by (induction rest) auto
      ultimately show ?thesis using Cons False by simp
    qed
  qed
qed

lemma set_first_occurrences: "set (first_occurrences key xs) \<subseteq> set xs"
proof (induction xs rule: length_induct)
  case (1 xs)
  show ?case
  proof (cases xs)
    case Nil then show ?thesis by simp
  next
    case (Cons x rest)
    have "length (filter (\<lambda>y. key y \<noteq> key x) rest) < length xs"
      using Cons by (simp add: le_imp_less_Suc)
    with 1 have "set (first_occurrences key (filter (\<lambda>y. key y \<noteq> key x) rest))
        \<subseteq> set (filter (\<lambda>y. key y \<noteq> key x) rest)" by blast
    with Cons show ?thesis by auto
  qed
qed

lemma first_occurrences_properties:
  "distinct (map key (first_occurrences key xs))
   \<and> subseq (first_occurrences key xs) xs
   \<and> key ` set (first_occurrences key xs) = key ` set xs"
proof (induction xs rule: length_induct)
  case (1 xs)
  show ?case
  proof (cases xs)
    case Nil then show ?thesis by simp
  next
    case (Cons x rest)
    let ?rest = "filter (\<lambda>y. key y \<noteq> key x) rest"
    have "length ?rest < length xs" using Cons by (simp add: le_imp_less_Suc)
    with 1 have ih: "distinct (map key (first_occurrences key ?rest))"
      "subseq (first_occurrences key ?rest) ?rest"
      "key ` set (first_occurrences key ?rest) = key ` set ?rest" by blast+
    have notin: "key x \<notin> key ` set (first_occurrences key ?rest)"
      using set_first_occurrences [of key ?rest] by auto
    have "subseq ?rest rest" by simp
    with ih(2) have sub: "subseq (first_occurrences key ?rest) rest" by (rule subseq_order.trans)
    have "key ` set (x # first_occurrences key ?rest) = key ` set (x # rest)"
      using ih(3) by auto
    with ih(1) notin sub Cons show ?thesis by simp
  qed
qed

lemma sanitize_loop_Inr:
  "sanitize_loop strip T index fc tracker dedup rest = Inr (fc', out) \<Longrightarrow>
   out = dedup @ dedup_from composite_key tracker (map (sanitize_record strip) rest)
   \<and> fc' = fc + sum_list (map missing_fields rest)"
proof (induction rest arbitrary: index fc tracker dedup)
  case Nil
  then show ?case by simp
next
  case (Cons raw rest)
  let ?r = "sanitize_record strip raw"
  from Cons.prems have T: "T div 10 \<noteq> 0"
    by (auto simp: Let_def split: if_splits)
  show ?case
  proof (cases "composite_key ?r \<in> tracker")
    case True
    with Cons.prems T
    have "sanitize_loop strip T (Suc index) (fc + missing_fields raw) tracker dedup rest = Inr (fc', out)"
      by (simp add: Let_def)
    from Cons.IH [OF this] True show ?thesis by simp
  next
    case False
    with Cons.prems T
    have "sanitize_loop strip T (Suc index) (fc + missing_fields raw)
            (insert (composite_key ?r) tracker) (dedup @ [?r]) rest = Inr (fc', out)"
      by (simp add: Let_def)
    from Cons.IH [OF this] False show ?thesis by simp
  qed
qed

lemma sanitize_loop_returns:
  "(\<exists>res. sanitize_loop strip T index fc tracker dedup rest = Inr res) = (rest = [] \<or> T div 10 \<noteq> 0)"
proof (induction rest arbitrary: index fc tracker dedup)
  case Nil
  show ?case by simp
next
  case (Cons raw rest)
  show ?case
  proof (cases "T div 10 = 0")
    case True
    then show ?thesis by (simp add: Let_def)
  next
    case False
    then show ?thesis using Cons.IH by (simp add: Let_def)
  qed
qed

lemma sanitize_loop_error:
  "sanitize_loop strip T index fc tracker dedup rest = Inl e \<Longrightarrow> e = ZeroDivisionError"
  by (induction rest arbitrary: index fc tracker dedup) (auto simp: Let_def split: if_splits)

lemma assign_ids_Inr:
  "assign_ids n index kept = Inr out \<Longrightarrow> out = map2 with_id [index..<index + length kept] kept"
proof (induction kept arbitrary: index out)
  case Nil
  then show ?case by simp
next
  case (Cons r rest)
  from Cons.prems obtain rest' where r: "assign_ids n (Suc index) rest = Inr rest'"
    and out: "out = with_id index r # rest'"
    by (auto simp: with_id_def split: if_splits sum.splits)
  have rest': "rest' = map2 with_id [Suc index..<Suc index + length rest] rest"
    using Cons.IH [OF r] .
  have "[index..<index + length (r # rest)] = index # [Suc index..<Suc index + length rest]"
    by (simp add: upt_rec)
  then show ?case using out rest' by simp
qed

lemma assign_ids_returns:
  "(\<exists>out. assign_ids n index kept = Inr out) = (kept = [] \<or> n div 10 \<noteq> 0)"
proof (induction kept arbitrary: index)
  case Nil
  show ?case by simp
next
  case (Cons r rest)
  show ?case
  proof (cases "n div 10 = 0")
    case True
    then show ?thesis by simp
  next
    case False
    have "\<exists>out. assign_ids n (Suc index) rest = Inr out"
      using Cons.IH [of "Suc index"] False by simp
    then show ?thesis using False by auto
  qed
qed

lemma assign_ids_error: "assign_ids n index kept = Inl e \<Longrightarrow> e = ZeroDivisionError"
  by (induction kept arbitrary: index) (auto split: if_splits sum.splits)

lemma of_char_digit_char: "d < 10 \<Longrightarrow> (of_char (digit_char d) :: nat) = 48 + d"
proof -
  assume "d < 10"
  then have "d \<in> {0, 1, 2, 3, 4, 5, 6, 7, 8, 9}" by auto
  then show ?thesis by (auto simp: digit_char_def)
qed

lemma decode_decimal_snoc: "decode_decimal (s @ [c]) = 10 * decode_decimal s + (of_char c - 48)"
  by (simp add: decode_decimal_def)

lemma decode_decimal_digits: "decode_decimal (decimal_digits n) = n"
proof (induction n rule: decimal_digits.induct)
  case (1 n)
  show ?case
  proof (cases "n < 10")
    case True
    then show ?thesis
      by (subst decimal_digits.simps) (simp add: decode_decimal_def of_char_digit_char)
  next
    case False
    then have "decode_decimal (decimal_digits (n div 10)) = n div 10" using 1 by simp
    then show ?thesis using False
      by (subst decimal_digits.simps) (simp add: decode_decimal_snoc of_char_digit_char)
  qed
qed

lemma decode_decimal_zeros: "decode_decimal (replicate k (CHR ''0'') @ s) = decode_decimal s"
proof -
  have "foldl (\<lambda>a c. 10 * a + (of_char c - 48)) 0 (replicate k (CHR ''0'')) = (0::nat)"
    by (induction k) simp_all
  then show ?thesis by (simp add: decode_decimal_def)
qed

lemma decode_format_06d: "decode_decimal (format_06d n) = n"
  by (simp add: format_06d_def Let_def decode_decimal_zeros decode_decimal_digits)

lemma review_id_inj: "review_id i = review_id j \<Longrightarrow> i = j"
  by (metis decode_format_06d review_id_def list.inject)

lemma decimal_digits_nonempty: "decimal_digits n \<noteq> []"
  by (subst decimal_digits.simps) simp

lemma length_decimal_digits: "length (decimal_digits n) \<le> k \<longleftrightarrow> n < 10 ^ k" if "0 < k"
  using that
proof (induction n arbitrary: k rule: decimal_digits.induct)
  case (1 n)
  show ?case
  proof (cases "n < 10")
    case True
    have "(10::nat) ^ 1 \<le> 10 ^ k" using 1 by (intro power_increasing) auto
    with True have "n < 10 ^ k" by simp
    with True 1 show ?thesis by (subst decimal_digits.simps) (simp add: Suc_le_eq)
  next
    case False
    show ?thesis
    proof (cases "k = 1")
      case True
      with False show ?thesis
        by (subst decimal_digits.simps) (simp add: decimal_digits_nonempty)
    next
      case k: False
      with 1 obtain k' where k': "k = Suc k'" "0 < k'" by (cases k) auto
      have "length (decimal_digits (n div 10)) \<le> k' \<longleftrightarrow> n div 10 < 10 ^ k'"
        using 1 False k' by simp
      moreover have "n div 10 < 10 ^ k' \<longleftrightarrow> n < 10 ^ k"
        unfolding k' by (simp add: div_less_iff_less_mult mult.commute)
      ultimately show ?thesis using False k' by (subst decimal_digits.simps) simp
    qed
  qed
qed

lemma length_review_id:
  "length (review_id n) = (if n < 1000000 then 7 else Suc (length (decimal_digits n)))"
proof -
  have "(length (decimal_digits n) \<le> 6) = (n < 10 ^ 6)"
    by (rule length_decimal_digits) simp
  then have iff: "(length (decimal_digits n) \<le> 6) = (n < 1000000)" by simp
  show ?thesis
  proof (cases "n < 1000000")
    case True
    with iff show ?thesis by (simp add: review_id_def format_06d_def Let_def)
  next
    case False
    with iff have "6 < length (decimal_digits n)" by simp
    with False show ?thesis by (simp add: review_id_def format_06d_def Let_def)
  qed
qed

lemma distinct_assigned_ids: "distinct (map ReviewID (map2 with_id [i..<i + length records] records))"
proof -
  have "map ReviewID (map2 with_id [i..<i + length records] records)
      = map (\<lambda>k. Some (review_id k)) [i..<i + length records]"
  proof (induction records arbitrary: i)
    case Nil
    show ?case by simp
  next
    case (Cons r records)
    have "[i..<i + length (r # records)] = i # [Suc i..<Suc i + length records]"
      by (subst upt_rec) simp
    with Cons [of "Suc i"] show ?case by (simp add: with_id_def)
  qed
  moreover have "inj (\<lambda>k. Some (review_id k))"
    by (auto simp: inj_def dest: review_id_inj)
  ultimately show ?thesis by (simp add: distinct_map inj_on_def inj_def)
qed

lemma length_first_occurrences: "length (first_occurrences key xs) \<le> length xs"
  using first_occurrences_properties [of key xs] list_emb_length by blast

lemma first_occurrences_nonempty: "xs \<noteq> [] \<Longrightarrow> first_occurrences key xs \<noteq> []"
  by (cases xs) simp_all

lemma sanitize_and_normalize_closed_form:
  "sanitize_and_normalize strip raw_records =
     (let kept = first_occurrences composite_key (map (sanitize_record strip) raw_records)
      in if raw_records = [] \<or> 10 \<le> length kept
         then Inr (map2 with_id [0..<length kept] kept,
                   \<lparr>total_loaded = int (length raw_records),
                    valid_records = int (length kept),
                    duplicates_removed = int (length raw_records) - int (length kept),
                    missing_fields_handled = int (sum_list (map missing_fields raw_records)),
                    unique_ids_generated = int (length kept)\<rparr>)
         else Inl ZeroDivisionError)"
proof -
  define kept where "kept = first_occurrences composite_key (map (sanitize_record strip) raw_records)"
  define T where "T = int (length raw_records)"
  have san: "sanitize_and_normalize strip raw_records =
     (case sanitize_loop strip T 0 0 {} [] raw_records of
        Inl e \<Rightarrow> Inl e
      | Inr (fc, k) \<Rightarrow>
          (case assign_ids (int (length k)) 0 k of
             Inl e \<Rightarrow> Inl e
           | Inr d \<Rightarrow>
               Inr (d, \<lparr>total_loaded = T, valid_records = int (length d),
                        duplicates_removed = T - int (length d),
                        missing_fields_handled = int fc,
                        unique_ids_generated = int (length d)\<rparr>)))"
    unfolding sanitize_and_normalize_def T_def Let_def ..
  have goal: "?thesis = (sanitize_and_normalize strip raw_records =
      (if raw_records = [] \<or> 10 \<le> length kept
       then Inr (map2 with_id [0..<length kept] kept,
                 \<lparr>total_loaded = T, valid_records = int (length kept),
                  duplicates_removed = T - int (length kept),
                  missing_fields_handled = int (sum_list (map missing_fields raw_records)),
                  unique_ids_generated = int (length kept)\<rparr>)
       else Inl ZeroDivisionError))"
    unfolding kept_def T_def Let_def ..
  have kept_le: "length kept \<le> length raw_records"
    using length_first_occurrences [of composite_key "map (sanitize_record strip) raw_records"]
    by (simp add: kept_def)
  have kept_ne: "kept \<noteq> []" if "raw_records \<noteq> []"
    using that first_occurrences_nonempty [of "map (sanitize_record strip) raw_records" composite_key]
    by (simp add: kept_def)
  have result: "sanitize_and_normalize strip raw_records =
      (if raw_records = [] \<or> 10 \<le> length kept
       then Inr (map2 with_id [0..<length kept] kept,
                 \<lparr>total_loaded = T, valid_records = int (length kept),
                  duplicates_removed = T - int (length kept),
                  missing_fields_handled = int (sum_list (map missing_fields raw_records)),
                  unique_ids_generated = int (length kept)\<rparr>)
       else Inl ZeroDivisionError)"
  proof (cases "raw_records = []")
    case True
    then have "kept = []" by (simp add: kept_def)
    with True show ?thesis unfolding san by (simp add: T_def)
  next
    case ne: False
    show ?thesis
    proof (cases "T div 10 = 0")
      case True
      then have "length raw_records < 10" unfolding T_def by linarith
      with kept_le have small: "\<not> 10 \<le> length kept" by simp
      have "\<not> (\<exists>res. sanitize_loop strip T 0 0 {} [] raw_records = Inr res)"
        using sanitize_loop_returns [of strip T 0 0 "{}" "[]" raw_records] True ne by blast
      then obtain e where l: "sanitize_loop strip T 0 0 {} [] raw_records = Inl e"
        by (cases "sanitize_loop strip T 0 0 {} [] raw_records") auto
      then have "e = ZeroDivisionError" by (rule sanitize_loop_error)
      with l ne small show ?thesis unfolding san by simp
    next
      case False
      have "\<exists>res. sanitize_loop strip T 0 0 {} [] raw_records = Inr res"
        using sanitize_loop_returns [of strip T 0 0 "{}" "[]" raw_records] False by blast
      then obtain fc out where loop: "sanitize_loop strip T 0 0 {} [] raw_records = Inr (fc, out)"
        by (cases "sanitize_loop strip T 0 0 {} [] raw_records") auto
      from sanitize_loop_Inr [OF loop]
      have out: "out = kept" and fc: "fc = sum_list (map missing_fields raw_records)"
        by (simp_all add: dedup_from_filter kept_def)
      show ?thesis
      proof (cases "int (length kept) div 10 = 0")
        case True
        then have small: "\<not> 10 \<le> length kept" by linarith
        have "\<not> (\<exists>res. assign_ids (int (length kept)) 0 kept = Inr res)"
          using assign_ids_returns [of "int (length kept)" 0 kept] True kept_ne [OF ne] by blast
        then obtain e where a: "assign_ids (int (length kept)) 0 kept = Inl e"
          by (cases "assign_ids (int (length kept)) 0 kept") auto
        then have "e = ZeroDivisionError" by (rule assign_ids_error)
        with a ne small loop out show ?thesis unfolding san by simp
      next
        case big: False
        then have large: "10 \<le> length kept" by linarith
        have "\<exists>res. assign_ids (int (length kept)) 0 kept = Inr res"
          using assign_ids_returns [of "int (length kept)" 0 kept] big by blast
        then obtain ids where ids: "assign_ids (int (length kept)) 0 kept = Inr ids" by blast
        from assign_ids_Inr [OF ids] have ids_eq: "ids = map2 with_id [0..<length kept] kept"
          by simp
        then have len: "length ids = length kept" by simp
        from ne large loop out fc ids ids_eq len show ?thesis unfolding san by simp
      qed
    qed
  qed
  with goal show ?thesis by blast
qed

lemma import_loop_closed_form:
  "import_loop record_count line_number imported json_lines =
     (if json_lines = [] \<or> record_count \<le> int line_number then Inr imported
      else if record_count < 10 then Inl ZeroDivisionError
      else Inr (imported @ take (nat record_count - line_number) json_lines))"
proof (induction json_lines arbitrary: line_number imported)
  case Nil
  show ?case by simp
next
  case (Cons json_line rest)
  show ?case
  proof (cases "record_count \<le> int line_number")
    case True
    then show ?thesis by simp
  next
    case False
    show ?thesis
    proof (cases "record_count < 10")
      case True
      with False have "record_count div 10 = 0" by simp
      with False True show ?thesis by simp
    next
      case big: False
      then have nz: "record_count div 10 \<noteq> 0" by simp
      from False obtain k where k: "nat record_count - line_number = Suc k"
        and k': "nat record_count - Suc line_number = k"
        by (cases "nat record_count - line_number") (auto simp: nat_le_iff)
      have "rest = [] \<or> record_count \<le> int (Suc line_number) \<Longrightarrow> take k rest = rest \<or> k = 0"
        using k' by (auto simp: nat_le_iff)
      then show ?thesis using False big nz k k' Cons.IH [of "Suc line_number" "imported @ [json_line]"]
        by auto
    qed
  qed
qed

lemma load_and_process_closed_form:
  "load_and_process strip (Some json_lines) record_count =
     (if json_lines = [] \<or> record_count \<le> 0 then sanitize_and_normalize strip []
      else if record_count < 10 then Inl ZeroDivisionError
      else sanitize_and_normalize strip (take (nat record_count) json_lines))"
  by (simp add: load_and_process_def import_loop_closed_form)

text \<open>
  Claim C9 fails on the code. The import command accepts every count from 1 to
  1,500,000, but each of the three progress conditions divides by zero when its total
  is below ten: \<open>record_count // 10\<close> for an accepted count of 5 and a non-empty file
  (in general, for every count from 1 to 9 and every non-empty file),
  \<open>record_total // 10\<close> for a file of three lines, \<open>unique_record_count // 10\<close> for ten
  lines that are duplicates of one record.
\<close>

theorem progress_modulus_divides_by_zero:
  "accepted_record_count 5
   \<and> load_and_process strip (Some (json_line # json_lines)) 5 = Inl ZeroDivisionError
   \<and> load_and_process strip (Some source_lines) record_count =
       (if source_lines = [] \<or> record_count \<le> 0 then sanitize_and_normalize strip []
        else if record_count < 10 then Inl ZeroDivisionError
        else sanitize_and_normalize strip (take (nat record_count) source_lines))
   \<and> accepted_record_count 10
   \<and> load_and_process strip (Some [line1, line2, line3]) 10 = Inl ZeroDivisionError
   \<and> import_loop 10 0 [] (replicate 10 json_line) = Inr (replicate 10 json_line)
   \<and> sanitize_loop strip 10 0 0 {} [] (replicate 10 json_line)
       = Inr (10 * missing_fields json_line, [sanitize_record strip json_line])
   \<and> load_and_process strip (Some (replicate 10 json_line)) 10 = Inl ZeroDivisionError"
proof -
  have "accepted_record_count 5 \<and> accepted_record_count 10"
    by (simp add: accepted_record_count_def)
  moreover have "load_and_process strip (Some (json_line # json_lines)) 5 = Inl ZeroDivisionError"
    by (simp add: load_and_process_def)
  moreover have "load_and_process strip (Some [line1, line2, line3]) 10 = Inl ZeroDivisionError"
    by (simp add: load_and_process_def sanitize_and_normalize_def)
  moreover have "import_loop 10 0 [] (replicate 10 json_line) = Inr (replicate 10 json_line)"
    by (simp add: numeral_eq_Suc)
  moreover have "sanitize_loop strip 10 0 0 {} [] (replicate 10 json_line)
       = Inr (10 * missing_fields json_line, [sanitize_record strip json_line])"
    by (simp add: numeral_eq_Suc Let_def)
  moreover have "load_and_process strip (Some (replicate 10 json_line)) 10 = Inl ZeroDivisionError"
    by (simp add: load_and_process_def sanitize_and_normalize_def Let_def numeral_eq_Suc)
  ultimately show ?thesis
    using load_and_process_closed_form [of strip source_lines record_count] by simp
qed

text \<open>
  Claim C10 fails on the code, by the defect of claim C9. On a list of one record
  \<open>sanitize_and_normalize\<close> raises \<open>ZeroDivisionError\<close>. In general it returns exactly
  when the list is empty or at least ten records have different composite keys, and
  raises \<open>ZeroDivisionError\<close> otherwise; when it returns, the result is what the claim
  says: the first occurrences of the composite keys in input order, each with the
  identifier of its index, the identifiers pairwise distinct, and the statistics as
  stated.
\<close>

theorem sanitize_raises_below_ten_keys:
  "sanitize_and_normalize strip [record] = Inl ZeroDivisionError
   \<and> sanitize_and_normalize strip raw_records =
       (let kept = first_occurrences composite_key (map (sanitize_record strip) raw_records)
        in if raw_records = [] \<or> 10 \<le> length kept
           then Inr (map2 with_id [0..<length kept] kept,
                     \<lparr>total_loaded = int (length raw_records),
                      valid_records = int (length kept),
                      duplicates_removed = int (length raw_records) - int (length kept),
                      missing_fields_handled = int (sum_list (map missing_fields raw_records)),
                      unique_ids_generated = int (length kept)\<rparr>)
           else Inl ZeroDivisionError)
   \<and> distinct (map ReviewID (map2 with_id [0..<length records] records))
   \<and> distinct (map composite_key (first_occurrences composite_key records))
   \<and> subseq (first_occurrences composite_key records) records
   \<and> composite_key ` set (first_occurrences composite_key records) = composite_key ` set records"
proof -
  have "sanitize_and_normalize strip [record] = Inl ZeroDivisionError"
    by (simp add: sanitize_and_normalize_def)
  moreover have "distinct (map ReviewID (map2 with_id [0..<length records] records))"
    using distinct_assigned_ids [of 0 records] by simp
  ultimately show ?thesis
    using sanitize_and_normalize_closed_form [of strip raw_records]
      first_occurrences_properties [of composite_key records]
    by simp
qed

section \<open>Properties of Python floats\<close>

subsection \<open>Rounding to an integer\<close>

lemma round_half_even_error: "\<bar>of_int (round_half_even x) - x\<bar> \<le> 1 / 2"
  unfolding round_half_even_def Let_def by (auto simp: abs_if) linarith+

lemma round_half_even_of_int [simp]: "round_half_even (of_int n) = n"
  by (simp add: round_half_even_def)

lemma round_half_even_above:
  assumes "of_int n + 1 / 2 < x" shows "n + 1 \<le> round_half_even x"
proof -
  have "\<bar>of_int (round_half_even x) - x\<bar> \<le> 1 / 2" by (rule round_half_even_error)
  with assms have "(of_int n :: rat) < of_int (round_half_even x)" by linarith
  then show ?thesis by simp
qed

lemma round_half_even_ge:
  assumes "of_int n \<le> x" shows "n \<le> round_half_even x"
proof -
  have "n \<le> \<lfloor>x\<rfloor>" using assms by (simp add: le_floor_iff)
  moreover have "\<lfloor>x\<rfloor> \<le> round_half_even x"
    by (simp add: round_half_even_def Let_def)
  ultimately show ?thesis by simp
qed

lemma round_half_even_le:
  assumes "x \<le> of_int n" shows "round_half_even x \<le> n"
proof (cases "x = of_int n")
  case True then show ?thesis by simp
next
  case False
  with assms have lt: "x < of_int n" by simp
  then have "\<lfloor>x\<rfloor> < n" by (simp add: floor_less_iff)
  then show ?thesis by (auto simp: round_half_even_def Let_def)
qed

subsection \<open>The binary exponent\<close>

lemma bit_length_bounds: "0 < n \<Longrightarrow> 2 ^ (bit_length n - 1) \<le> n \<and> n < 2 ^ bit_length n"
proof (induction n rule: bit_length.induct)
  case (1 n)
  show ?case
  proof (cases "n div 2 = 0")
    case True
    with 1 have "n = 1" by (cases n) auto
    then show ?thesis by (simp add: bit_length.simps)
  next
    case False
    then have ih: "2 ^ (bit_length (n div 2) - 1) \<le> n div 2" "n div 2 < 2 ^ bit_length (n div 2)"
      using 1 by auto
    have pos: "0 < bit_length (n div 2)" using False by (subst bit_length.simps) simp
    have bl: "bit_length n = Suc (bit_length (n div 2))" using 1(2) by (subst bit_length.simps) simp
    have low: "(2::nat) ^ (bit_length n - 1) = 2 * 2 ^ (bit_length (n div 2) - 1)"
      using pos bl by (cases "bit_length (n div 2)") auto
    have high: "(2::nat) ^ bit_length n = 2 * 2 ^ bit_length (n div 2)" using bl by simp
    have "2 * (n div 2) \<le> n" "n < 2 * (n div 2) + 2" by presburger+
    then show ?thesis using ih unfolding low high by linarith
  qed
qed

lemma power_int_two_less_iff: "(power_int (2::rat) a < power_int 2 b) = (a < b)"
proof
  assume l: "power_int (2::rat) a < power_int 2 b"
  show "a < b"
  proof (rule ccontr)
    assume "\<not> a < b"
    then have "b \<le> a" by simp
    then have "power_int (2::rat) b \<le> power_int 2 a" by (intro power_int_increasing) auto
    with l show False by simp
  qed
next
  assume "a < b"
  then show "power_int (2::rat) a < power_int 2 b" by (intro power_int_strict_increasing) auto
qed

lemma power_int_two_le_iff: "(power_int (2::rat) a \<le> power_int 2 b) = (a \<le> b)"
  using power_int_two_less_iff [of b a] by auto

lemma power_int_two_pos [simp]: "0 < power_int (2::rat) e"
  by simp

lemma power_int_two_Suc: "power_int (2::rat) (e + 1) = 2 * power_int 2 e"
  by (simp add: power_int_add)

lemma binary_exponent_bounds:
  assumes "q \<noteq> 0"
  shows "power_int 2 (binary_exponent q) \<le> \<bar>q\<bar> \<and> \<bar>q\<bar> < power_int 2 (binary_exponent q + 1)"
proof -
  obtain n d where nd: "quotient_of \<bar>q\<bar> = (n, d)" by (cases "quotient_of \<bar>q\<bar>")
  have d: "0 < d" using quotient_of_denom_pos [OF nd] .
  have a: "\<bar>q\<bar> = of_int n / of_int d" using quotient_of_div [OF nd] .
  have "0 < \<bar>q\<bar>" using assms by simp
  with a d have n: "0 < n" by (simp add: zero_less_divide_iff)
  define bn where "bn = bit_length (nat n)"
  define bd where "bd = bit_length (nat d)"
  define k where "k = int bn - int bd"
  have nb: "2 ^ (bn - 1) \<le> nat n" "nat n < 2 ^ bn"
    using bit_length_bounds [of "nat n"] n by (auto simp: bn_def)
  have db: "2 ^ (bd - 1) \<le> nat d" "nat d < 2 ^ bd"
    using bit_length_bounds [of "nat d"] d by (auto simp: bd_def)
  have bn1: "1 \<le> bn" using nb(2) n by (cases bn) auto
  have bd1: "1 \<le> bd" using db(2) d by (cases bd) auto
  have rn: "(of_int n :: rat) = of_nat (nat n)" using n by simp
  have rd: "(of_int d :: rat) = of_nat (nat d)" using d by simp
  have n_lo: "(2::rat) ^ (bn - 1) \<le> of_int n"
    unfolding rn using nb(1) by (metis of_nat_le_iff of_nat_numeral of_nat_power)
  have n_hi: "(of_int n :: rat) < 2 ^ bn"
    unfolding rn using nb(2) by (metis of_nat_less_iff of_nat_numeral of_nat_power)
  have d_lo: "(2::rat) ^ (bd - 1) \<le> of_int d"
    unfolding rd using db(1) by (metis of_nat_le_iff of_nat_numeral of_nat_power)
  have d_hi: "(of_int d :: rat) < 2 ^ bd"
    unfolding rd using db(2) by (metis of_nat_less_iff of_nat_numeral of_nat_power)
  have dpos: "(0::rat) < of_int d" using d by simp
  have p1: "power_int (2::rat) (k + 1) = 2 ^ bn / 2 ^ (bd - 1)"
  proof -
    have "k + 1 = int bn - int (bd - 1)" using bd1 by (simp add: k_def)
    then show ?thesis by (simp add: power_int_diff)
  qed
  have p2: "power_int (2::rat) (k - 1) = 2 ^ (bn - 1) / 2 ^ bd"
  proof -
    have "k - 1 = int (bn - 1) - int bd" using bn1 by (simp add: k_def)
    then show ?thesis by (simp add: power_int_diff)
  qed
  have upper: "\<bar>q\<bar> < power_int 2 (k + 1)"
  proof -
    have "of_int n / of_int d < (2::rat) ^ bn / of_int d"
      using n_hi dpos by (simp add: divide_strict_right_mono)
    also have "\<dots> \<le> 2 ^ bn / 2 ^ (bd - 1)"
      using d_lo d by (intro divide_left_mono mult_pos_pos) auto
    finally show ?thesis unfolding a p1 .
  qed
  have lower: "power_int 2 (k - 1) \<le> \<bar>q\<bar>"
  proof -
    have "(2::rat) ^ (bn - 1) / 2 ^ bd \<le> 2 ^ (bn - 1) / of_int d"
      using d_hi d by (intro divide_left_mono mult_pos_pos) auto
    also have "\<dots> \<le> of_int n / of_int d"
      using n_lo dpos by (simp add: divide_right_mono)
    finally show ?thesis unfolding a p2 .
  qed
  have be: "binary_exponent q = (if power_int 2 k \<le> \<bar>q\<bar> then k else k - 1)"
    by (simp add: binary_exponent_def nd Let_def bn_def bd_def k_def)
  show ?thesis
  proof (cases "power_int 2 k \<le> \<bar>q\<bar>")
    case True
    then show ?thesis using upper be by simp
  next
    case False
    then show ?thesis using lower be by simp
  qed
qed

lemma binary_exponent_unique:
  assumes "power_int 2 k \<le> \<bar>q\<bar>" and "\<bar>q\<bar> < power_int 2 (k + 1)"
  shows "binary_exponent q = k"
proof -
  have "0 < \<bar>q\<bar>" using assms(1) power_int_two_pos [of k] by linarith
  then have "q \<noteq> 0" by auto
  from binary_exponent_bounds [OF this]
  have b: "power_int 2 (binary_exponent q) \<le> \<bar>q\<bar>" "\<bar>q\<bar> < power_int 2 (binary_exponent q + 1)"
    by auto
  have "power_int (2::rat) (binary_exponent q) < power_int 2 (k + 1)" using b(1) assms(2) by simp
  then have 1: "binary_exponent q < k + 1" by (simp only: power_int_two_less_iff)
  have "power_int (2::rat) k < power_int 2 (binary_exponent q + 1)" using b(2) assms(1) by simp
  then have 2: "k < binary_exponent q + 1" by (simp only: power_int_two_less_iff)
  from 1 2 show ?thesis by simp
qed

subsection \<open>Rounding to a double\<close>

text \<open>
  Rounding to a multiple of \<open>g\<close> moves a number by at most \<open>g / 2\<close>, does not cross a
  multiple of \<open>g\<close>, and passes the next multiple once the number is beyond the middle.
\<close>

lemma grid_round_error:
  fixes g :: rat assumes "0 < g"
  shows "\<bar>of_int (round_half_even (q / g)) * g - q\<bar> \<le> g / 2"
proof -
  have "\<bar>of_int (round_half_even (q / g)) - q / g\<bar> \<le> 1 / 2" by (rule round_half_even_error)
  then have "\<bar>of_int (round_half_even (q / g)) - q / g\<bar> * g \<le> 1 / 2 * g"
    using assms by (intro mult_right_mono) auto
  moreover have "\<bar>of_int (round_half_even (q / g)) - q / g\<bar> * g
      = \<bar>of_int (round_half_even (q / g)) * g - q\<bar>"
  proof -
    have "\<bar>of_int (round_half_even (q / g)) - q / g\<bar> * g
        = \<bar>(of_int (round_half_even (q / g)) - q / g) * g\<bar>"
      using assms by (simp add: abs_mult)
    also have "(of_int (round_half_even (q / g)) - q / g) * g
        = of_int (round_half_even (q / g)) * g - q"
      using assms by (simp add: algebra_simps)
    finally show ?thesis .
  qed
  ultimately show ?thesis by simp
qed

lemma grid_round_ge:
  fixes g :: rat assumes "0 < g" and "of_int A * g \<le> q"
  shows "of_int A * g \<le> of_int (round_half_even (q / g)) * g"
proof -
  have "of_int A \<le> q / g" using assms by (simp add: pos_le_divide_eq)
  then have "A \<le> round_half_even (q / g)" by (rule round_half_even_ge)
  then have "(of_int A :: rat) \<le> of_int (round_half_even (q / g))" by simp
  then show ?thesis using assms(1) by (intro mult_right_mono) auto
qed

lemma grid_round_above:
  fixes g :: rat assumes "0 < g" and "of_int A * g + g / 2 < q"
  shows "of_int A * g + g \<le> of_int (round_half_even (q / g)) * g"
proof -
  have "(of_int A + 1 / 2) * g < q" using assms(2) by (simp add: algebra_simps)
  then have "of_int A + 1 / 2 < q / g" using assms(1) by (simp add: pos_less_divide_eq)
  then have "A + 1 \<le> round_half_even (q / g)" by (rule round_half_even_above)
  then have "(of_int (A + 1) :: rat) \<le> of_int (round_half_even (q / g))"
    by (simp only: of_int_le_iff)
  then have "of_int (A + 1) * g \<le> of_int (round_half_even (q / g)) * g"
    using assms(1) by (intro mult_right_mono) auto
  then show ?thesis by (simp add: algebra_simps)
qed

lemma on_grid_finer:
  assumes "on_grid a e" and "e' \<le> e" shows "on_grid a e'"
proof -
  from assms(1) obtain A where a: "a = of_int A * power_int 2 e" unfolding on_grid_def by blast
  have "power_int (2::rat) e = power_int 2 (e - e') * power_int 2 e'"
    by (simp flip: power_int_add)
  also have "power_int (2::rat) (e - e') = 2 ^ nat (e - e')"
    using assms(2) by (simp add: power_int_nonneg_exp)
  also have "\<dots> = of_int (2 ^ nat (e - e'))" by simp
  finally have "a = of_int (A * 2 ^ nat (e - e')) * power_int 2 e'"
    unfolding a by (simp only: of_int_mult mult.assoc)
  then show ?thesis unfolding on_grid_def by blast
qed

lemma on_grid_add:
  assumes "on_grid a e" shows "on_grid (a + of_int j * power_int 2 e) e"
proof -
  from assms obtain A where a: "a = of_int A * power_int 2 e" unfolding on_grid_def by blast
  have "a + of_int j * power_int 2 e = of_int (A + j) * power_int 2 e"
    unfolding a by (simp add: algebra_simps)
  then show ?thesis unfolding on_grid_def by blast
qed

lemma on_grid_power:
  assumes "e \<le> j" shows "on_grid (power_int 2 j) e"
proof -
  have "on_grid (power_int 2 j) j" unfolding on_grid_def by (rule exI [of _ 1]) simp
  then show ?thesis using assms by (rule on_grid_finer)
qed

lemma on_grid_minus: "on_grid a e \<Longrightarrow> on_grid (- a) e"
  unfolding on_grid_def by (metis mult_minus_left of_int_minus)

text \<open>Rounding stays finite and within half a grid step below 2^1000.\<close>

lemma round_to_double_error:
  assumes "\<bar>q\<bar> < 2 ^ 1000"
  shows "is_finite (round_to_double q)
       \<and> \<bar>float_value (round_to_double q) - q\<bar> \<le> power_int 2 (ulp_exponent q) / 2"
proof (cases "q = 0")
  case True
  then show ?thesis by (simp add: round_to_double_def)
next
  case False
  define g where "g = power_int (2::rat) (ulp_exponent q)"
  define r where "r = of_int (round_half_even (q / g)) * g"
  have g: "0 < g" by (simp add: g_def)
  have err: "\<bar>r - q\<bar> \<le> g / 2" unfolding r_def using g by (rule grid_round_error)
  from binary_exponent_bounds [OF False] have "power_int 2 (binary_exponent q) \<le> \<bar>q\<bar>" by simp
  with assms have "power_int (2::rat) (binary_exponent q) < 2 ^ 1000" by simp
  also have "(2::rat) ^ 1000 = power_int 2 1000" by simp
  finally have "binary_exponent q < 1000" by (simp only: power_int_two_less_iff)
  then have "ulp_exponent q \<le> 948" by (simp add: ulp_exponent_def)
  then have "g \<le> power_int 2 948" unfolding g_def by (simp only: power_int_two_le_iff)
  then have g948: "g \<le> 2 ^ 948" by simp
  have "\<bar>r\<bar> \<le> \<bar>q\<bar> + g / 2" using err by linarith
  also have "\<dots> < 2 ^ 1000 + 2 ^ 948" using assms g948 g by linarith
  also have "\<dots> < (2::rat) ^ 1024" by simp
  finally have small: "\<not> 2 ^ 1024 \<le> \<bar>r\<bar>" by simp
  have "round_to_double q = (if r = 0 then (if q < 0 then NegZero else Finite 0) else Finite r)"
    using False small by (simp add: round_to_double_def r_def g_def Let_def)
  then have "is_finite (round_to_double q) \<and> float_value (round_to_double q) = r" by auto
  with err show ?thesis by (simp add: g_def)
qed

lemma round_to_double_grid:
  assumes "q \<noteq> 0" and "\<bar>q\<bar> < 2 ^ 1000" and "on_grid a (ulp_exponent q)"
  shows "a \<le> q \<Longrightarrow> a \<le> float_value (round_to_double q)"
    and "a + power_int 2 (ulp_exponent q) / 2 < q
         \<Longrightarrow> a + power_int 2 (ulp_exponent q) \<le> float_value (round_to_double q)"
    and "q \<le> a \<Longrightarrow> float_value (round_to_double q) \<le> a"
proof -
  define g where "g = power_int (2::rat) (ulp_exponent q)"
  define r where "r = of_int (round_half_even (q / g)) * g"
  have g: "0 < g" by (simp add: g_def)
  from assms(3) obtain A where a: "a = of_int A * g" unfolding on_grid_def g_def by blast
  have err: "\<bar>r - q\<bar> \<le> g / 2" unfolding r_def using g by (rule grid_round_error)
  have val: "float_value (round_to_double q) = r"
  proof -
    from round_to_double_error [OF assms(2)] have fin: "is_finite (round_to_double q)" by simp
    show ?thesis
      using fin assms(1) unfolding round_to_double_def r_def g_def Let_def
      by (auto split: if_splits)
  qed
  show "a \<le> q \<Longrightarrow> a \<le> float_value (round_to_double q)"
    unfolding val a r_def using g by (rule grid_round_ge)
  show "a + power_int 2 (ulp_exponent q) / 2 < q
         \<Longrightarrow> a + power_int 2 (ulp_exponent q) \<le> float_value (round_to_double q)"
    unfolding val a r_def g_def [symmetric] using g by (rule grid_round_above)
  show "q \<le> a \<Longrightarrow> float_value (round_to_double q) \<le> a"
  proof -
    assume "q \<le> a"
    then have "q / g \<le> of_int A" using g by (simp add: a pos_divide_le_eq)
    then have "round_half_even (q / g) \<le> A" by (rule round_half_even_le)
    then have "(of_int (round_half_even (q / g)) :: rat) \<le> of_int A" by simp
    then have "of_int (round_half_even (q / g)) * g \<le> of_int A * g"
      using g by (intro mult_right_mono) auto
    then show ?thesis unfolding val a r_def .
  qed
qed

subsection \<open>One decimal place\<close>

lemma one_decimal_error: "\<bar>one_decimal r - r\<bar> \<le> 1 / 20"
proof -
  define t where "t = round_half_even (\<bar>r\<bar> * 10)"
  have "0 \<le> t" unfolding t_def using round_half_even_ge [of 0 "\<bar>r\<bar> * 10"] by simp
  then have nat: "(of_nat (nat t) :: rat) = of_int t" by simp
  have "\<bar>of_int t - \<bar>r\<bar> * 10\<bar> \<le> 1 / 2" unfolding t_def by (rule round_half_even_error)
  then have "\<bar>of_int t / 10 - \<bar>r\<bar>\<bar> \<le> 1 / 20" by (simp add: abs_if split: if_splits) 
  then show ?thesis
    unfolding one_decimal_def t_def [symmetric] nat by (auto simp: abs_if split: if_splits)
qed

lemma one_decimal_ge_int:
  assumes "0 \<le> n" and "of_int n \<le> r" shows "of_int n \<le> one_decimal r"
proof -
  define t where "t = round_half_even (\<bar>r\<bar> * 10)"
  have r: "0 \<le> r" using assms by (meson of_int_0_le_iff order_trans)
  have "of_int (n * 10) \<le> \<bar>r\<bar> * 10" using assms r by simp
  then have nt: "n * 10 \<le> t" unfolding t_def by (rule round_half_even_ge)
  then have "0 \<le> t" using assms(1) by simp
  then have "(of_nat (nat t) :: rat) = of_int t" by simp
  moreover have "(of_int (n * 10) :: rat) \<le> of_int t" using nt by (simp only: of_int_le_iff)
  ultimately show ?thesis using r by (simp add: one_decimal_def t_def)
qed

subsection \<open>Reading a rendered number\<close>

lemma digit_char_cases:
  assumes "d < 10"
  shows "is_digit (digit_char d) \<and> \<not> is_blank (digit_char d) \<and> digit_char d \<noteq> CHR ''_''
       \<and> digit_char d \<noteq> CHR ''-'' \<and> digit_char d \<noteq> CHR ''+'' \<and> digit_char d \<noteq> CHR ''.''
       \<and> (of_char (digit_char d) :: nat) = 48 + d"
proof -
  from assms have "d \<in> {0, 1, 2, 3, 4, 5, 6, 7, 8, 9}" by auto
  then show ?thesis by (auto simp: digit_char_def is_digit_def is_blank_def)
qed

lemma is_digit_plain:
  assumes "is_digit c"
  shows "\<not> is_blank c \<and> c \<noteq> CHR ''_'' \<and> c \<noteq> CHR ''-'' \<and> c \<noteq> CHR ''+'' \<and> c \<noteq> CHR ''.''"
  using assms by (auto simp: is_digit_def is_blank_def)

lemma decimal_digits_all: "list_all is_digit (decimal_digits n) \<and> decimal_digits n \<noteq> []"
proof (induction n rule: decimal_digits.induct)
  case (1 n)
  show ?case
  proof (cases "n < 10")
    case True
    then show ?thesis by (subst (1 2) decimal_digits.simps) (simp add: digit_char_cases)
  next
    case False
    then have "list_all is_digit (decimal_digits (n div 10))" using 1 by simp
    moreover have "is_digit (digit_char (n mod 10))" by (simp add: digit_char_cases)
    ultimately show ?thesis using False by (subst (1 2) decimal_digits.simps) simp
  qed
qed

lemma drop_underscores_none:
  "CHR ''_'' \<notin> set s \<Longrightarrow> prev \<noteq> CHR ''_'' \<Longrightarrow> drop_underscores prev s = Some s"
  by (induction s arbitrary: prev) auto

lemma takeWhile_digits:
  "list_all is_digit ds \<Longrightarrow> \<not> is_digit c \<Longrightarrow> takeWhile is_digit (ds @ c # rest) = ds
     \<and> dropWhile is_digit (ds @ c # rest) = c # rest"
  by (induction ds) auto

lemma takeWhile_all: "list_all P ds \<Longrightarrow> takeWhile P ds = ds \<and> dropWhile P ds = []"
  by (induction ds) auto

text \<open>The text of a decimal number with one fractional digit, as the format writes it.\<close>

lemma float_of_decimal_text:
  assumes "b < 10"
  shows "py_float_of ((if negative then ''-'' else []) @ decimal_digits a @ ''.'' @ [digit_char b])
       = Some (if 10 * a + b = 0 then (if negative then NegZero else Finite 0)
               else round_to_double ((if negative then - 1 else 1) * of_nat (10 * a + b) / 10))"
proof -
  define ds where "ds = decimal_digits a"
  define c where "c = digit_char b"
  define body where "body = ds @ ''.'' @ [c]"
  define rendered where "rendered = (if negative then ''-'' else []) @ body"
  have ds: "list_all is_digit ds" "ds \<noteq> []" using decimal_digits_all [of a] by (auto simp: ds_def)
  have c: "is_digit c" "\<not> is_blank c" "c \<noteq> CHR ''_''" "(of_char c :: nat) = 48 + b"
    using digit_char_cases [OF assms] by (auto simp: c_def)
  from ds obtain d0 dr where d0: "ds = d0 # dr" by (cases ds) auto
  with ds have d0d: "is_digit d0" by simp
  have plain: "\<And>x. x \<in> set ds \<Longrightarrow> is_digit x" using ds(1) by (simp add: list_all_iff)
  have nb_first: "dropWhile is_blank rendered = rendered"
    using is_digit_plain [OF d0d] by (simp add: rendered_def body_def d0 is_blank_def)
  have nb_last: "dropWhile is_blank (rev rendered) = rev rendered"
    using c(2) by (simp add: rendered_def body_def)
  have stripped: "rev (dropWhile is_blank (rev (dropWhile is_blank rendered))) = rendered"
    by (simp add: nb_first nb_last)
  have ne: "rendered \<noteq> []" by (simp add: rendered_def body_def)
  have "CHR ''_'' \<notin> set rendered"
    using plain c(3) is_digit_plain by (auto simp: rendered_def body_def)
  then have clean: "drop_underscores (CHR 0x00) rendered = Some rendered"
    by (rule drop_underscores_none) simp
  have sign: "split_sign rendered = (negative, body)"
    using is_digit_plain [OF d0d] by (simp add: split_sign_def rendered_def body_def d0)
  have nd: "\<not> is_digit CHR ''.''" by (simp add: is_digit_def)
  have whole: "takeWhile is_digit body = ds" "dropWhile is_digit body = ''.'' @ [c]"
    using takeWhile_digits [OF ds(1) nd, of "[c]"] by (simp_all add: body_def)
  have frac: "takeWhile is_digit [c] = [c]" "dropWhile is_digit [c] = []"
    using c(1) by simp_all
  have val: "decode_decimal (ds @ [c]) = 10 * a + b"
    by (simp add: decode_decimal_snoc ds_def decode_decimal_digits c(4))
  have scale: "power_int (10::rat) (0 - int (length [c])) = 1 / 10"
    by (simp add: power_int_minus_divide)
  have pieces: "(case ''.'' @ [c] of
               [] \<Rightarrow> ([], [])
             | x # xs \<Rightarrow>
                 if x = CHR ''.'' then (takeWhile is_digit xs, dropWhile is_digit xs)
                 else ([], ''.'' @ [c])) = ([c], [])"
    using c(1) by simp
  have "parse_number rendered
      = Some (if 10 * a + b = 0 then (if negative then NegZero else Finite 0)
               else round_to_double ((if negative then - 1 else 1) * of_nat (10 * a + b) / 10))"
    unfolding parse_number_def sign Let_def prod.case whole pieces val
    using ds(2) by (simp add: parse_exponent_def power_int_minus_divide del: of_nat_add of_nat_mult)
  then show ?thesis
    unfolding py_float_of_def stripped Let_def rendered_def [symmetric] body_def [symmetric]
      ds_def [symmetric] c_def [symmetric]
    using ne clean by (simp add: rendered_def body_def)
qed

lemma one_decimal_zero_iff: "(nat (round_half_even (\<bar>r\<bar> * 10)) = 0) = (one_decimal r = 0)"
  by (simp add: one_decimal_def)

lemma reparse_format:
  "py_float_of (py_format_1f (Finite r))
     = Some (if one_decimal r = 0 then (if r < 0 then NegZero else Finite 0)
             else round_to_double (one_decimal r))"
proof -
  define t where "t = nat (round_half_even (\<bar>r\<bar> * 10))"
  have b: "t mod 10 < 10" by simp
  have t: "10 * (t div 10) + t mod 10 = t" by simp
  have fmt: "py_format_1f (Finite r)
      = (if r < 0 then ''-'' else []) @ decimal_digits (t div 10) @ ''.'' @ [digit_char (t mod 10)]"
    by (simp add: t_def Let_def)
  have od: "one_decimal r = (if r < 0 then - 1 else 1) * of_nat t / 10"
    by (simp add: one_decimal_def t_def)
  have z: "(t = 0) = (one_decimal r = 0)" unfolding t_def by (rule one_decimal_zero_iff)
  show ?thesis
    unfolding fmt float_of_decimal_text [OF b] t od [symmetric] z by simp
qed

lemma round_half_even_zero [simp]: "round_half_even 0 = 0"
  using round_half_even_of_int [of 0] by simp

lemma reparse_negative_zero: "py_float_of (py_format_1f NegZero) = Some NegZero"
proof -
  have "decimal_digits 0 = ''0''" "digit_char 0 = CHR ''0''"
    by (simp_all add: decimal_digits.simps digit_char_def)
  then show ?thesis using float_of_decimal_text [of 0 True 0] by simp
qed

lemma finite_cases:
  assumes "is_finite v"
  shows "v = Finite (float_value v) \<or> (v = NegZero \<and> float_value v = 0)"
  using assms by (cases v) auto

text \<open>What the rendering of a finite float parses as.\<close>

lemma reparse_finite:
  assumes "is_finite w" and "\<bar>float_value w\<bar> < 2 ^ 999"
  shows "\<exists>v. py_float_of (py_format_1f w) = Some v \<and> is_finite v
       \<and> float_value v = float_value (round_to_double (one_decimal (float_value w)))"
proof -
  from finite_cases [OF assms(1)] show ?thesis
  proof
    assume w: "w = Finite (float_value w)"
    define d where "d = one_decimal (float_value w)"
    have "\<bar>d - float_value w\<bar> \<le> 1 / 20" unfolding d_def by (rule one_decimal_error)
    with assms(2) have "\<bar>d\<bar> < 2 ^ 999 + 1" by linarith
    also have "\<dots> < (2::rat) ^ 1000" by simp
    finally have fin: "is_finite (round_to_double d)" using round_to_double_error by blast
    have "py_float_of (py_format_1f w)
        = Some (if d = 0 then (if float_value w < 0 then NegZero else Finite 0)
                else round_to_double d)"
      by (subst w) (simp only: reparse_format d_def)
    then show ?thesis using fin unfolding d_def [symmetric]
      by (cases "d = 0") (auto simp: round_to_double_def)
  next
    assume "w = NegZero \<and> float_value w = 0"
    then show ?thesis
      by (auto simp: reparse_negative_zero one_decimal_def round_to_double_def
          simp del: py_format_1f.simps)
  qed
qed

subsection \<open>The next version below \<open>2^47\<close>\<close>

lemma ulp_exponent_le:
  assumes "q \<noteq> 0" and "\<bar>q\<bar> < power_int 2 j" and "- 1021 \<le> j"
  shows "ulp_exponent q \<le> j - 53"
proof -
  from binary_exponent_bounds [OF assms(1)] assms(2)
  have "power_int (2::rat) (binary_exponent q) < power_int 2 j" by simp
  then have "binary_exponent q < j" by (simp only: power_int_two_less_iff)
  then show ?thesis using assms(3) by (simp add: ulp_exponent_def)
qed

lemma round_to_double_near:
  assumes "\<bar>q\<bar> < 2 ^ 48"
  shows "is_finite (round_to_double q) \<and> \<bar>float_value (round_to_double q) - q\<bar> \<le> 1 / 64"
proof (cases "q = 0")
  case True
  then show ?thesis by (simp add: round_to_double_def)
next
  case False
  have "\<bar>q\<bar> < power_int 2 48" using assms by simp
  from ulp_exponent_le [OF False this] have "ulp_exponent q \<le> - 5" by simp
  then have "power_int (2::rat) (ulp_exponent q) \<le> power_int 2 (- 5)"
    by (simp only: power_int_two_le_iff)
  then have g: "power_int (2::rat) (ulp_exponent q) \<le> 1 / 32" by (simp add: power_int_minus_divide)
  have "\<bar>q\<bar> < 2 ^ 1000" using assms by (rule less_trans) simp
  from round_to_double_error [OF this] g show ?thesis by linarith
qed

lemma tenth_bounds: "1 / 10 < tenth \<and> tenth < 1 / 8"
  by (simp add: tenth_def)

text \<open>Below 2^47 the three roundings together move the sum by less than 0.1.\<close>

lemma next_version_small:
  assumes "\<bar>a\<bar> < 2 ^ 47"
  shows "\<exists>v. py_float_of (py_format_1f (round_to_double (a + tenth))) = Some v \<and> is_finite v
       \<and> a < float_value v"
proof -
  define w where "w = round_to_double (a + tenth)"
  have x: "\<bar>a + tenth\<bar> < 2 ^ 48" using assms tenth_bounds by (simp add: abs_if split: if_splits)
  from round_to_double_near [OF x]
  have w: "is_finite w" "\<bar>float_value w - (a + tenth)\<bar> \<le> 1 / 64" by (simp_all add: w_def)
  define d where "d = one_decimal (float_value w)"
  have d: "\<bar>d - float_value w\<bar> \<le> 1 / 20" unfolding d_def by (rule one_decimal_error)
  have "\<bar>float_value w\<bar> < 2 ^ 47 + 1" using w(2) assms tenth_bounds by linarith
  then have wb: "\<bar>float_value w\<bar> < 2 ^ 999" by (rule less_trans) simp
  have "\<bar>d\<bar> < 2 ^ 47 + 2" using w(2) d assms tenth_bounds by linarith
  then have "\<bar>d\<bar> < 2 ^ 48" by (rule less_trans) simp
  from round_to_double_near [OF this]
  have v: "\<bar>float_value (round_to_double d) - d\<bar> \<le> 1 / 64" by simp
  from reparse_finite [OF w(1) wb] obtain v where
    "py_float_of (py_format_1f w) = Some v" "is_finite v"
    "float_value v = float_value (round_to_double d)" unfolding d_def by blast
  moreover have "a < float_value (round_to_double d)"
    using v d w(2) tenth_bounds by linarith
  ultimately show ?thesis unfolding w_def by auto
qed

subsection \<open>Parsed floats are doubles\<close>

text \<open>
  A rounded number of magnitude 1 or more is a multiple of the grid step of its own
  binade: it has at most 53 significant bits.
\<close>

lemma round_to_double_representable:
  assumes q: "q \<noteq> 0" and fin: "is_finite (round_to_double q)"
    and big: "1 \<le> \<bar>float_value (round_to_double q)\<bar>"
  shows "on_grid (float_value (round_to_double q))
           (binary_exponent (float_value (round_to_double q)) - 52)"
proof -
  define e where "e = ulp_exponent q"
  define g where "g = power_int (2::rat) e"
  define A where "A = round_half_even (q / g)"
  define r where "r = of_int A * g"
  define k where "k = binary_exponent q"
  have g: "0 < g" by (simp add: g_def)
  have val: "float_value (round_to_double q) = r"
    using fin q unfolding round_to_double_def r_def A_def g_def e_def Let_def
    by (auto split: if_splits)
  have r1: "1 \<le> \<bar>r\<bar>" using big val by simp
  have err: "\<bar>r - q\<bar> \<le> g / 2" unfolding r_def A_def using g by (rule grid_round_error)
  from binary_exponent_bounds [OF q]
  have kb: "power_int 2 k \<le> \<bar>q\<bar>" "\<bar>q\<bar> < power_int 2 (k + 1)" by (simp_all add: k_def)
  have e: "e = k - 52"
  proof (rule ccontr)
    assume "e \<noteq> k - 52"
    then have clamp: "e = - 1074" "k + 1 \<le> - 2"
      by (auto simp: e_def ulp_exponent_def k_def max_def split: if_splits)
    have "power_int (2::rat) (k + 1) \<le> power_int 2 (- 2)"
      using clamp(2) by (simp only: power_int_two_le_iff)
    then have "\<bar>q\<bar> < 1 / 4" using kb(2) by (simp add: power_int_minus_divide)
    moreover have "g \<le> power_int 2 (- 2)"
      unfolding g_def clamp(1) by (simp add: power_int_two_le_iff)
    then have "g \<le> 1 / 4" by (simp add: power_int_minus_divide)
    ultimately show False using err r1 by linarith
  qed
  have g52: "2 ^ 52 * g = power_int 2 k"
  proof -
    have "power_int (2::rat) k = power_int 2 (52 + (k - 52))" by simp
    also have "\<dots> = power_int 2 52 * power_int 2 (k - 52)" by (rule power_int_add) simp
    finally show ?thesis by (simp add: g_def e)
  qed
  have g53: "2 ^ 53 * g = power_int 2 (k + 1)"
  proof -
    have "power_int (2::rat) (k + 1) = 2 * power_int 2 k" by (rule power_int_two_Suc)
    then show ?thesis using g52 by simp
  qed
  have up: "\<bar>q / g\<bar> < 2 ^ 53"
  proof -
    have "\<bar>q\<bar> < 2 ^ 53 * g" using kb(2) g53 by simp
    then show ?thesis using g by (simp add: abs_divide pos_divide_less_eq)
  qed
  have lo: "2 ^ 52 \<le> \<bar>q / g\<bar>"
  proof -
    have "2 ^ 52 * g \<le> \<bar>q\<bar>" using kb(1) g52 by simp
    then show ?thesis using g by (simp add: abs_divide pos_le_divide_eq)
  qed
  have A_hi: "\<bar>A\<bar> \<le> 2 ^ 53"
  proof -
    have "q / g \<le> 2 ^ 53" using up by linarith
    then have "q / g \<le> of_int (2 ^ 53)" by simp
    then have 1: "A \<le> 2 ^ 53" unfolding A_def by (rule round_half_even_le)
    have "- (2 ^ 53) \<le> q / g" using up by linarith
    then have "of_int (- (2 ^ 53)) \<le> q / g" by simp
    then have 2: "- (2 ^ 53) \<le> A" unfolding A_def by (rule round_half_even_ge)
    from 1 2 show ?thesis by simp
  qed
  have A_lo: "2 ^ 52 \<le> \<bar>A\<bar>"
  proof (cases "0 \<le> q / g")
    case True
    with lo have "2 ^ 52 \<le> q / g" by linarith
    then have "of_int (2 ^ 52) \<le> q / g" by simp
    then have "2 ^ 52 \<le> A" unfolding A_def by (rule round_half_even_ge)
    then show ?thesis by simp
  next
    case False
    with lo have "q / g \<le> - (2 ^ 52)" by linarith
    then have "q / g \<le> of_int (- (2 ^ 52))" by simp
    then have "A \<le> - (2 ^ 52)" unfolding A_def by (rule round_half_even_le)
    then show ?thesis by simp
  qed
  have absr: "\<bar>r\<bar> = of_int \<bar>A\<bar> * g" using g by (simp add: r_def abs_mult)
  have r_lo: "power_int 2 k \<le> \<bar>r\<bar>"
  proof -
    have "(2 ^ 52 :: rat) \<le> of_int \<bar>A\<bar>" using A_lo by (metis of_int_le_iff of_int_numeral of_int_power)
    then have "2 ^ 52 * g \<le> of_int \<bar>A\<bar> * g" using g by (intro mult_right_mono) auto
    then show ?thesis unfolding absr g52 .
  qed
  show ?thesis
  proof (cases "\<bar>A\<bar> = 2 ^ 53")
    case True
    then have rp: "\<bar>r\<bar> = power_int 2 (k + 1)" using absr g53 by simp
    have "power_int (2::rat) (k + 1) < power_int 2 (k + 1 + 1)"
      by (simp add: power_int_two_less_iff)
    with rp have "binary_exponent r = k + 1" by (intro binary_exponent_unique) simp_all
    moreover have "on_grid (power_int 2 (k + 1)) (k + 1 - 52)" by (rule on_grid_power) simp
    then have "on_grid r (k + 1 - 52)"
    proof (cases "0 \<le> r")
      case True
      with rp have "r = power_int 2 (k + 1)" by simp
      then show ?thesis using \<open>on_grid (power_int 2 (k + 1)) (k + 1 - 52)\<close> by simp
    next
      case False
      with rp have "r = - power_int 2 (k + 1)" by simp
      then show ?thesis
        using on_grid_minus [OF \<open>on_grid (power_int 2 (k + 1)) (k + 1 - 52)\<close>] by simp
    qed
    ultimately show ?thesis unfolding val by simp
  next
    case False
    with A_hi have "\<bar>A\<bar> < 2 ^ 53" by simp
    then have "(of_int \<bar>A\<bar> :: rat) < 2 ^ 53" by (metis of_int_less_iff of_int_numeral of_int_power)
    then have "of_int \<bar>A\<bar> * g < 2 ^ 53 * g" using g by (intro mult_strict_right_mono) auto
    then have "\<bar>r\<bar> < power_int 2 (k + 1)" unfolding absr g53 .
    with r_lo have "binary_exponent r = k" by (rule binary_exponent_unique)
    moreover have "on_grid r (k - 52)" unfolding on_grid_def r_def g_def e by blast
    ultimately show ?thesis unfolding val by simp
  qed
qed

text \<open>Every float that \<open>float\<close> returns is an infinity, \<open>nan\<close>, a zero or a rounded number.\<close>

lemma float_of_cases:
  assumes "py_float_of s = Some v"
  shows "v \<in> {NaN, PosInf, NegInf, NegZero, Finite 0} \<or> (\<exists>q. q \<noteq> 0 \<and> v = round_to_double q)"
proof -
  define P where "P = (\<lambda>v. v \<in> {NaN, PosInf, NegInf, NegZero, Finite 0}
                          \<or> (\<exists>q. q \<noteq> 0 \<and> v = round_to_double q))"
  have rounded: "\<And>q. q \<noteq> 0 \<Longrightarrow> P (round_to_double q)" unfolding P_def by blast
  have special: "P NaN" "P PosInf" "P NegInf" "P NegZero" "P (Finite 0)" unfolding P_def by simp_all
  from assms obtain cleaned where "parse_number cleaned = Some v"
    by (auto simp: py_float_of_def Let_def split: if_splits option.splits)
  then have "P v"
    unfolding parse_number_def parse_inf_or_nan_def Let_def
    by (auto split: if_splits option.splits prod.splits intro!: rounded special)
  then show ?thesis unfolding P_def .
qed

lemma float_of_representable:
  assumes "py_float_of s = Some v" and "is_finite v" and "1 \<le> \<bar>float_value v\<bar>"
  shows "on_grid (float_value v) (binary_exponent (float_value v) - 52)"
proof -
  from float_of_cases [OF assms(1)] assms(2,3)
  obtain q where "q \<noteq> 0" "v = round_to_double q" by auto
  with assms(2,3) show ?thesis using round_to_double_representable by blast
qed

subsection \<open>The next version from \<open>2^47\<close> to \<open>2^50\<close>\<close>

text \<open>
  From \<open>2^47\<close> on the doubles are \<open>1/32\<close> or more apart, and the error bounds of the three
  roundings no longer add up to less than \<open>0.1\<close>. The steps are followed on the grid
  instead. For a double \<open>m\<close> in the binade \<open>k\<close> with grid step \<open>g\<close>, the sum \<open>m + 0.1\<close>
  rounds to \<open>m + j * g\<close> or beyond, where \<open>(j - 1/2) * g < 0.1\<close>; the rendering is at most
  \<open>1/20\<close> below that; and reading it gives a double above \<open>m\<close> as soon as the rendering
  is more than half a grid step above \<open>m\<close>. A number that reaches the next power of two
  stays at or above it in every step.
\<close>

lemma ulp_exponent_binade:
  assumes "power_int 2 k \<le> \<bar>q\<bar>" and "\<bar>q\<bar> < power_int 2 (k + 1)" and "- 1022 \<le> k"
  shows "ulp_exponent q = k - 52"
  using binary_exponent_unique [OF assms(1,2)] assms(3) by (simp add: ulp_exponent_def)

lemma power_int_two_half: "power_int (2::rat) (k - 51) = 2 * power_int 2 (k - 52)"
  using power_int_two_Suc [of "k - 52"] by simp

lemma big_powers: "(2::rat) ^ 902 + 1 < 2 ^ 999 \<and> (2::rat) ^ 999 < 2 ^ 1000"
  by simp

lemma grid_margin_small:
  fixes g :: rat
  assumes "0 < g" and "0 < h" and "(of_int j - 1 / 2) * g < tenth" and "h / 2 + 1 / 20 < of_int j * g"
  shows "g < 1 / 4"
proof -
  have "0 < of_int j * g" using assms(2,4) by linarith
  then have "0 < (of_int j :: rat)" using assms(1) by (simp add: zero_less_mult_iff)
  then have "1 \<le> j" by simp
  then have "(1::rat) \<le> of_int j" by simp
  then have "(1 - 1 / 2) * g \<le> (of_int j - 1 / 2) * g" using assms(1) by (intro mult_right_mono) auto
  with assms(3) tenth_bounds show ?thesis by simp
qed

lemma next_version_positive:
  fixes m :: rat and k j :: int
  assumes k: "0 \<le> k" "k \<le> 900"
    and grid: "on_grid m (k - 52)"
    and lo: "power_int 2 k \<le> m" and hi: "m < power_int 2 (k + 1)"
    and j: "(of_int j - 1 / 2) * power_int 2 (k - 52) < tenth"
    and margin: "power_int (2::rat) (k - 52) / 2 + 1 / 20 < of_int j * power_int 2 (k - 52)"
  shows "\<exists>v. py_float_of (py_format_1f (round_to_double (m + tenth))) = Some v \<and> is_finite v
       \<and> m < float_value v"
proof -
  define g where "g = power_int (2::rat) (k - 52)"
  define p where "p = power_int (2::rat) (k + 1)"
  define x where "x = m + tenth"
  define w where "w = float_value (round_to_double x)"
  define d where "d = one_decimal w"
  have g0: "0 < g" by (simp add: g_def)
  have g4: "g < 1 / 4" using grid_margin_small [OF g0 g0] j margin unfolding g_def by blast
  have "power_int (2::rat) 1 \<le> power_int 2 (k + 1)" using k(1) by (simp only: power_int_two_le_iff) 
  then have p2: "2 \<le> p" by (simp add: p_def)
  have p_double: "2 * p = power_int 2 (k + 1 + 1)" unfolding p_def by (rule power_int_two_Suc [symmetric])
  have p_int: "p = of_int (2 ^ nat (k + 1))" using k(1) by (simp add: p_def power_int_nonneg_exp)
  have "power_int (2::rat) (k + 1 + 1) \<le> power_int 2 902" using k(2) by (simp only: power_int_two_le_iff)
  then have p_big: "2 * p \<le> 2 ^ 902" using p_double by simp
  have k_pos: "0 < power_int (2::rat) k" by simp
  have m0: "0 < m" using lo k_pos by linarith
  have above: "p \<le> float_value (round_to_double q)" if "p \<le> q" "q < 2 * p" for q
  proof -
    have q: "power_int 2 (k + 1) \<le> \<bar>q\<bar>" "\<bar>q\<bar> < power_int 2 (k + 1 + 1)"
      using that p2 unfolding p_double [symmetric] p_def [symmetric] by linarith+
    from ulp_exponent_binade [OF q] k(1) have u: "ulp_exponent q = k - 51" by simp
    have "on_grid p (ulp_exponent q)" unfolding u p_def by (rule on_grid_power) simp
    moreover have "q \<noteq> 0" using that p2 by linarith
    moreover have "\<bar>q\<bar> < 2 ^ 1000" using that p2 p_big big_powers by linarith
    ultimately show ?thesis using that(1) round_to_double_grid(1) by blast
  qed
  have inside: "a + g \<le> float_value (round_to_double q)"
    if "power_int 2 k \<le> q" "q < p" "on_grid a (k - 52)" "a + g / 2 < q" for q a
  proof -
    have q: "power_int 2 k \<le> \<bar>q\<bar>" "\<bar>q\<bar> < power_int 2 (k + 1)"
      using that(1,2) k_pos unfolding p_def by linarith+
    from ulp_exponent_binade [OF q] k(1) have u: "ulp_exponent q = k - 52" by simp
    have "q \<noteq> 0" using that(1) k_pos by linarith
    moreover have "\<bar>q\<bar> < 2 ^ 1000" using q(2) p_big p2 big_powers unfolding p_def [symmetric] by linarith
    moreover have "on_grid a (ulp_exponent q)" using that(3) u by simp
    moreover have "a + power_int 2 (ulp_exponent q) / 2 < q" using that(4) u by (simp add: g_def)
    ultimately have "a + power_int 2 (ulp_exponent q) \<le> float_value (round_to_double q)"
      by (rule round_to_double_grid(2))
    then show ?thesis using u by (simp add: g_def)
  qed
  have x_hi: "x < p + 1 / 8" using hi tenth_bounds by (simp add: x_def p_def)
  have x_lo: "power_int 2 k < x" using lo tenth_bounds by (simp add: x_def)
  have xb: "\<bar>x\<bar> < 2 ^ 1000" using x_hi x_lo k_pos p_big p2 big_powers by linarith
  from round_to_double_error [OF xb]
  have wfin: "is_finite (round_to_double x)"
    and werr: "\<bar>w - x\<bar> \<le> power_int 2 (ulp_exponent x) / 2" by (simp_all add: w_def)
  have derr: "\<bar>d - w\<bar> \<le> 1 / 20" unfolding d_def by (rule one_decimal_error)
  have main: "m < d \<and> d < 2 * p \<and> (d < p \<longrightarrow> m + g / 2 < d) \<and> \<bar>w\<bar> < 2 ^ 999"
  proof (cases "p \<le> x")
    case True
    have x2: "x < 2 * p" using x_hi p2 by linarith
    from above [OF True x2] have wp: "p \<le> w" by (simp add: w_def)
    have q: "power_int 2 (k + 1) \<le> \<bar>x\<bar>" "\<bar>x\<bar> < power_int 2 (k + 1 + 1)"
      using True x2 p2 unfolding p_double [symmetric] p_def [symmetric] by linarith+
    from ulp_exponent_binade [OF q] k(1) have u: "ulp_exponent x = k - 51" by simp
    have "w \<le> x + g" using werr unfolding u power_int_two_half g_def by linarith
    then have w_hi: "w < p + 1 / 8 + 1 / 4" using x_hi g4 by linarith
    have "of_int (2 ^ nat (k + 1)) \<le> one_decimal w"
      using wp unfolding p_int by (intro one_decimal_ge_int) simp_all
    then have dp: "p \<le> d" by (simp add: d_def p_int)
    have "d < 2 * p" using derr w_hi p2 by linarith
    moreover have "m < d" using dp hi unfolding p_def by linarith
    moreover have "\<bar>w\<bar> < 2 ^ 999" using wp w_hi p2 p_big big_powers by linarith
    ultimately show ?thesis using dp by simp
  next
    case False
    then have xp: "x < p" by simp
    have "on_grid (m + of_int (j - 1) * power_int 2 (k - 52)) (k - 52)"
      using grid by (rule on_grid_add)
    moreover have "m + of_int (j - 1) * power_int 2 (k - 52) + g / 2 < x"
      using j unfolding x_def g_def by (simp add: algebra_simps)
    ultimately have "m + of_int (j - 1) * power_int 2 (k - 52) + g \<le> w"
      unfolding w_def using x_lo xp by (intro inside) simp_all
    then have w_lo: "m + of_int j * g \<le> w" by (simp add: g_def algebra_simps)
    have q: "power_int 2 k \<le> \<bar>x\<bar>" "\<bar>x\<bar> < power_int 2 (k + 1)"
      using x_lo xp k_pos unfolding p_def by linarith+
    from ulp_exponent_binade [OF q] k(1) have u: "ulp_exponent x = k - 52" by simp
    have w_hi: "w \<le> x + g / 2" using werr unfolding u g_def by linarith
    have "m + g / 2 < d" using w_lo derr margin unfolding g_def by linarith
    moreover have "d < 2 * p" using w_hi derr xp g4 p2 by linarith
    moreover have "\<bar>w\<bar> < 2 ^ 999" using w_lo w_hi m0 margin g0 xp g4 p_big p2 big_powers
      unfolding g_def by linarith
    ultimately show ?thesis using g0 by simp
  qed
  have d0: "d \<noteq> 0" using main m0 by linarith
  have result: "m < float_value (round_to_double d)"
  proof (cases "p \<le> d")
    case True
    with main above [of d] hi show ?thesis unfolding p_def by simp
  next
    case False
    then have dp: "d < p" by simp
    with main have "m + g / 2 < d" by simp
    moreover have "power_int 2 k \<le> d" using main lo by simp
    ultimately have "m + g \<le> float_value (round_to_double d)"
      using dp grid by (intro inside) simp_all
    then show ?thesis using g0 by linarith
  qed
  have "\<bar>float_value (round_to_double x)\<bar> < 2 ^ 999" using main by (simp add: w_def)
  from reparse_finite [OF wfin this] obtain v where
    "py_float_of (py_format_1f (round_to_double x)) = Some v" "is_finite v"
    "float_value v = float_value (round_to_double d)" unfolding d_def w_def by blast
  with result show ?thesis unfolding x_def by auto
qed

lemma next_version_negative:
  fixes m :: rat and kx kd j :: int
  assumes kx: "1 \<le> kx" "kx \<le> kd" "kd \<le> 900"
    and grid: "on_grid m (kd - 52)"
    and xlo: "power_int 2 kx \<le> - (m + tenth)" and xhi: "- (m + tenth) < power_int 2 (kx + 1)"
    and mhi: "- m \<le> power_int 2 (kd + 1)"
    and j: "(of_int j - 1 / 2) * power_int 2 (kx - 52) < tenth"
    and margin: "power_int (2::rat) (kd - 52) / 2 + 1 / 20 < of_int j * power_int 2 (kx - 52)"
  shows "\<exists>v. py_float_of (py_format_1f (round_to_double (m + tenth))) = Some v \<and> is_finite v
       \<and> m < float_value v"
proof -
  define g where "g = power_int (2::rat) (kx - 52)"
  define h where "h = power_int (2::rat) (kd - 52)"
  define x where "x = m + tenth"
  define w where "w = float_value (round_to_double x)"
  define d where "d = one_decimal w"
  have g0: "0 < g" and h0: "0 < h" by (simp_all add: g_def h_def)
  have g4: "g < 1 / 4" using grid_margin_small [OF g0 h0] j margin unfolding g_def h_def by blast
  have "power_int (2::rat) 1 \<le> power_int 2 kx" using kx(1) by (simp only: power_int_two_le_iff)
  then have x2: "x \<le> - 2" using xlo by (simp add: x_def)
  have "power_int (2::rat) (kx + 1) \<le> power_int 2 901" using kx by (simp only: power_int_two_le_iff)
  then have x_big: "- x < 2 ^ 901" using xhi by (simp add: x_def)
  have "power_int (2::rat) (kd + 1) \<le> power_int 2 901" using kx by (simp only: power_int_two_le_iff)
  then have m_big: "- m \<le> 2 ^ 901" using mhi by simp
  have pw: "(2::rat) ^ 901 + 1 < 2 ^ 999 \<and> (2::rat) ^ 999 < 2 ^ 1000" by simp
  have q: "power_int 2 kx \<le> \<bar>x\<bar>" "\<bar>x\<bar> < power_int 2 (kx + 1)"
    using xlo xhi x2 unfolding x_def by linarith+
  from ulp_exponent_binade [OF q] kx(1) have u: "ulp_exponent x = kx - 52" by simp
  have x0: "x \<noteq> 0" using x2 by linarith
  have xb: "\<bar>x\<bar> < 2 ^ 1000" using x2 x_big pw by linarith
  from round_to_double_error [OF xb]
  have wfin: "is_finite (round_to_double x)" and werr: "\<bar>w - x\<bar> \<le> g / 2"
    by (simp_all add: w_def u g_def)
  have "on_grid m (kx - 52)" using grid by (rule on_grid_finer) (use kx in simp)
  then have "on_grid (m + of_int (j - 1) * power_int 2 (kx - 52)) (kx - 52)"
    by (rule on_grid_add)
  moreover have "m + of_int (j - 1) * power_int 2 (kx - 52) + power_int 2 (kx - 52) / 2 < x"
    using j unfolding x_def by (simp add: algebra_simps)
  ultimately have "m + of_int (j - 1) * power_int 2 (kx - 52) + power_int 2 (kx - 52) \<le> w"
    unfolding w_def by (rule round_to_double_grid(2) [OF x0 xb, unfolded u])
  then have w_lo: "m + of_int j * g \<le> w" by (simp add: g_def algebra_simps)
  have derr: "\<bar>d - w\<bar> \<le> 1 / 20" unfolding d_def by (rule one_decimal_error)
  have d_lo: "m + h / 2 < d" using w_lo derr margin unfolding g_def h_def by linarith
  have d_hi: "d < 0" using werr derr x2 g4 by linarith
  have d0: "d \<noteq> 0" using d_hi by simp
  have dm: "\<bar>d\<bar> < power_int 2 (kd + 1)" using d_lo d_hi h0 mhi by linarith
  have db: "\<bar>d\<bar> < 2 ^ 1000" using d_lo d_hi h0 m_big pw by linarith
  from ulp_exponent_le [OF d0 dm] kx have ud: "ulp_exponent d \<le> kd - 52" by simp
  then have "power_int (2::rat) (ulp_exponent d) \<le> h"
    unfolding h_def by (simp only: power_int_two_le_iff)
  then have "m + power_int 2 (ulp_exponent d) / 2 < d" using d_lo by linarith
  moreover have "on_grid m (ulp_exponent d)" using grid ud by (rule on_grid_finer)
  ultimately have "m + power_int 2 (ulp_exponent d) \<le> float_value (round_to_double d)"
    using d0 db by (intro round_to_double_grid(2))
  moreover have "0 < power_int (2::rat) (ulp_exponent d)" by simp
  ultimately have result: "m < float_value (round_to_double d)" by linarith
  have "\<bar>float_value (round_to_double x)\<bar> < 2 ^ 999"
    using werr x2 x_big g4 pw unfolding w_def by linarith
  from reparse_finite [OF wfin this] obtain v where
    "py_float_of (py_format_1f (round_to_double x)) = Some v" "is_finite v"
    "float_value v = float_value (round_to_double d)" unfolding d_def w_def by blast
  with result show ?thesis unfolding x_def by auto
qed

lemma next_version_large:
  fixes m :: rat
  assumes grid: "on_grid m (binary_exponent m - 52)"
    and big: "2 ^ 47 \<le> \<bar>m\<bar>" and lo: "- (2 ^ 50) \<le> m" and hi: "m < 2 ^ 50"
  shows "\<exists>v. py_float_of (py_format_1f (round_to_double (m + tenth))) = Some v \<and> is_finite v
       \<and> m < float_value v"
proof -
  define k where "k = binary_exponent m"
  have m0: "m \<noteq> 0" using big by auto
  from binary_exponent_bounds [OF m0]
  have kb: "power_int 2 k \<le> \<bar>m\<bar>" "\<bar>m\<bar> < power_int 2 (k + 1)" by (simp_all add: k_def)
  have "power_int (2::rat) 47 < power_int 2 (k + 1)" using big kb(2) by simp
  then have k47: "47 \<le> k" by (simp only: power_int_two_less_iff)
  have "power_int (2::rat) k \<le> power_int 2 50" using kb(1) lo hi by simp
  then have k50: "k \<le> 50" by (simp only: power_int_two_le_iff)
  have t: "1 / 10 < tenth" "tenth < 1 / 8" using tenth_bounds by simp_all
  note pw = power_int_minus_divide
  show ?thesis
  proof (cases "0 < m")
    case True
    with kb have mk: "power_int 2 k \<le> m" "m < power_int 2 (k + 1)" by simp_all
    have "power_int (2::rat) k < power_int 2 50" using mk(1) hi by simp
    then have "k < 50" by (simp only: power_int_two_less_iff)
    with k47 consider "k = 47" | "k = 48" | "k = 49" by linarith
    then show ?thesis
    proof cases
      case 1
      show ?thesis
        by (rule next_version_positive [where k = 47 and j = 3])
           (use grid mk t in \<open>simp_all add: k_def [symmetric] 1 pw\<close>)
    next
      case 2
      show ?thesis
        by (rule next_version_positive [where k = 48 and j = 2])
           (use grid mk t in \<open>simp_all add: k_def [symmetric] 2 pw\<close>)
    next
      case 3
      show ?thesis
        by (rule next_version_positive [where k = 49 and j = 1])
           (use grid mk t in \<open>simp_all add: k_def [symmetric] 3 pw\<close>)
    qed
  next
    case False
    with m0 have neg: "m < 0" by simp
    with kb have mk: "power_int 2 k \<le> - m" "- m < power_int 2 (k + 1)" by simp_all
    show ?thesis
    proof (cases "k = 50")
      case True
      with mk(1) lo have m: "m = - (2 ^ 50)" by simp
      have g: "on_grid m (49 - 52)"
        unfolding m using on_grid_minus [OF on_grid_power [of "49 - 52" 50]] by simp
      show ?thesis
        by (rule next_version_negative [where kx = 49 and kd = 49 and j = 1])
           (use g t in \<open>simp_all add: m pw\<close>)
    next
      case False
      with k47 k50 consider "k = 47" | "k = 48" | "k = 49" by linarith
      then show ?thesis
      proof cases
        case 1
        show ?thesis
        proof (cases "power_int 2 47 \<le> - (m + tenth)")
          case True
          show ?thesis
            by (rule next_version_negative [where kx = 47 and kd = 47 and j = 3])
               (use grid mk t True in \<open>simp_all add: k_def [symmetric] 1 pw\<close>)
        next
          case False
          show ?thesis
            by (rule next_version_negative [where kx = 46 and kd = 47 and j = 6])
               (use grid mk t False in \<open>simp_all add: k_def [symmetric] 1 pw\<close>)
        qed
      next
        case 2
        show ?thesis
        proof (cases "power_int 2 48 \<le> - (m + tenth)")
          case True
          show ?thesis
            by (rule next_version_negative [where kx = 48 and kd = 48 and j = 2])
               (use grid mk t True in \<open>simp_all add: k_def [symmetric] 2 pw\<close>)
        next
          case False
          show ?thesis
            by (rule next_version_negative [where kx = 47 and kd = 48 and j = 3])
               (use grid mk t False in \<open>simp_all add: k_def [symmetric] 2 pw\<close>)
        qed
      next
        case 3
        show ?thesis
        proof (cases "power_int 2 49 \<le> - (m + tenth)")
          case True
          show ?thesis
            by (rule next_version_negative [where kx = 49 and kd = 49 and j = 1])
               (use grid mk t True in \<open>simp_all add: k_def [symmetric] 3 pw\<close>)
        next
          case False
          show ?thesis
            by (rule next_version_negative [where kx = 48 and kd = 49 and j = 2])
               (use grid mk t False in \<open>simp_all add: k_def [symmetric] 3 pw\<close>)
        qed
      qed
    qed
  qed
qed

subsection \<open>Evaluating the rounding\<close>

lemma round_to_double_binade:
  assumes lo: "power_int 2 k \<le> \<bar>q\<bar>" and hi: "\<bar>q\<bar> < power_int 2 (k + 1)"
    and k: "- 1022 \<le> k" "k \<le> 1022"
  shows "round_to_double q
       = Finite (of_int (round_half_even (q / power_int 2 (k - 52))) * power_int 2 (k - 52))"
proof -
  define g where "g = power_int (2::rat) (k - 52)"
  define r where "r = of_int (round_half_even (q / g)) * g"
  have g: "0 < g" by (simp add: g_def)
  have u: "ulp_exponent q = k - 52" using lo hi k(1) by (rule ulp_exponent_binade)
  have q0: "q \<noteq> 0" using lo power_int_two_pos [of k] by linarith
  have err: "\<bar>r - q\<bar> \<le> g / 2" unfolding r_def using g by (rule grid_round_error)
  have g52: "2 ^ 52 * g = power_int 2 k"
  proof -
    have "power_int (2::rat) k = power_int 2 (52 + (k - 52))" by simp
    also have "\<dots> = power_int 2 52 * power_int 2 (k - 52)" by (rule power_int_add) simp
    finally show ?thesis by (simp add: g_def)
  qed
  have "power_int (2::rat) (k + 1) \<le> power_int 2 1023" using k(2) by (simp only: power_int_two_le_iff)
  then have top: "power_int (2::rat) (k + 1) \<le> 2 ^ 1023" by simp
  have "power_int (2::rat) (k + 1) = 2 * power_int 2 k" by (rule power_int_two_Suc)
  with g52 have gk: "g \<le> power_int 2 (k + 1)" "g \<le> power_int 2 k" using g by simp_all
  have "\<bar>r\<bar> \<le> \<bar>q\<bar> + g / 2" using err by linarith
  also have "\<dots> < power_int 2 (k + 1) + power_int 2 (k + 1) / 2" using hi gk(1) g by linarith
  also have "\<dots> \<le> 2 ^ 1023 + 2 ^ 1023 / 2" using top by linarith
  also have "\<dots> < (2::rat) ^ 1024" by simp
  finally have small: "\<not> 2 ^ 1024 \<le> \<bar>r\<bar>" by simp
  have "\<bar>q\<bar> - g / 2 \<le> \<bar>r\<bar>" using err by linarith
  moreover have "g / 2 < \<bar>q\<bar>" using lo gk(2) g by linarith
  ultimately have "r \<noteq> 0" by linarith
  then show ?thesis
    using q0 small by (simp add: round_to_double_def u r_def g_def Let_def)
qed

section \<open>Properties of the latest-snapshot selection\<close>

lemma locate_loop_eq: "locate_version_loop F acc files = check_version_loop F acc files"
  by (induction files arbitrary: acc) (auto split: sum.splits option.splits)

lemma detect_loop_eq: "detect_version_loop F acc files = check_version_loop F acc files"
  by (induction files arbitrary: acc) (auto split: sum.splits option.splits)

lemma locate_latest_eq: "locate_latest_file F roots ds = check_latest_file F roots ds"
  by (simp add: locate_latest_file_def check_latest_file_def locate_loop_eq Let_def)

lemma detect_latest_eq: "detect_latest_file F roots ds = check_latest_file F roots ds"
  by (simp add: detect_latest_file_def check_latest_file_def detect_loop_eq Let_def)

lemma split_from_nonempty: "split_from sep piece s \<noteq> []"
  by (induction sep piece s rule: split_from.induct) auto

lemma split_from_two:
  "sep \<noteq> [] \<Longrightarrow> s = a @ sep @ b \<Longrightarrow> 2 \<le> length (split_from sep piece s)"
proof (induction sep piece s arbitrary: a rule: split_from.induct)
  case (1 sep piece)
  then show ?case by simp
next
  case (2 sep piece c cs)
  show ?case
  proof (cases "prefix sep (c # cs)")
    case True
    have "split_from sep [] (drop (length sep) (c # cs)) \<noteq> []" by (rule split_from_nonempty)
    then have "1 \<le> length (split_from sep [] (drop (length sep) (c # cs)))"
      by (simp add: Suc_le_eq)
    moreover have "split_from sep piece (c # cs)
        = piece # split_from sep [] (drop (length sep) (c # cs))"
      using True "2.prems"(1) by simp
    ultimately show ?thesis by simp
  next
    case False
    with "2.prems" have "a \<noteq> []" by (cases a) auto
    then obtain a' where a: "a = c # a'" using "2.prems" by (cases a) auto
    with "2.prems" have "cs = a' @ sep @ b" by simp
    from "2.IH"(2) [OF _ "2.prems"(1) this] False "2.prems"(1) show ?thesis by simp
  qed
qed

lemma version_part_Inr:
  assumes "prefix (ds @ ''_root_v'') filename"
  shows "\<exists>segment. version_part filename = Inr segment"
proof -
  from assms obtain b where "filename = ds @ ''_root_v'' @ b" by (auto simp: prefix_def)
  then have "2 \<le> length (py_split ''_root_v'' filename)"
    unfolding py_split_def by (intro split_from_two) simp_all
  then obtain first second pieces where p: "py_split ''_root_v'' filename = first # second # pieces"
    by (cases "py_split ''_root_v'' filename"; cases "tl (py_split ''_root_v'' filename)") auto
  have "py_split ''.json'' second \<noteq> []" unfolding py_split_def by (rule split_from_nonempty)
  then obtain segment others where "py_split ''.json'' second = segment # others"
    by (cases "py_split ''.json'' second") auto
  with p show ?thesis by (simp add: version_part_def)
qed

lemma check_version_loop_result:
  "\<forall>f \<in> set files. prefix (ds @ ''_root_v'') f \<and> suffix ''.json'' f \<Longrightarrow>
   check_version_loop F acc files
     = Inr (acc @ List.map_filter (\<lambda>f. map_option (\<lambda>v. (v, f)) (snapshot_version F ds f)) files)"
proof (induction files arbitrary: acc)
  case Nil
  show ?case by (simp add: List.map_filter_simps)
next
  case (Cons f files)
  then have pf: "prefix (ds @ ''_root_v'') f" and sf: "suffix ''.json'' f" by simp_all
  from version_part_Inr [OF pf] obtain segment where seg: "version_part f = Inr segment" by blast
  have sv: "snapshot_version F ds f = float_of F segment"
    using pf sf seg by (simp add: snapshot_version_def)
  have rest: "\<forall>f \<in> set files. prefix (ds @ ''_root_v'') f \<and> suffix ''.json'' f"
    using Cons.prems by simp
  show ?case
  proof (cases "float_of F segment")
    case None
    with seg sv Cons.IH [OF rest] show ?thesis by (simp add: List.map_filter_simps)
  next
    case (Some v)
    with seg sv Cons.IH [OF rest, of "acc @ [(v, f)]"] show ?thesis
      by (simp add: List.map_filter_simps)
  qed
qed

lemma py_max_from_maximal:
  assumes trans: "\<And>a b c. R a b \<Longrightarrow> R b c \<Longrightarrow> R a c"
    and asym: "\<And>a b. R a b \<Longrightarrow> \<not> R b a"
  shows "(py_max_from R c xs = c \<or> (py_max_from R c xs \<in> set xs \<and> R (py_max_from R c xs) c))
       \<and> \<not> R c (py_max_from R c xs)
       \<and> (\<forall>x \<in> set xs. \<not> R x (py_max_from R c xs))"
proof (induction xs arbitrary: c)
  case Nil
  show ?case using asym by auto
next
  case (Cons x xs)
  show ?case
  proof (cases "R x c")
    case True
    let ?m = "py_max_from R x xs"
    from Cons.IH [of x] have
      1: "?m = x \<or> (?m \<in> set xs \<and> R ?m x)" and 2: "\<not> R x ?m" and 3: "\<forall>y \<in> set xs. \<not> R y ?m"
      by blast+
    have mc: "R ?m c"
    proof (cases "?m = x")
      case True
      with \<open>R x c\<close> show ?thesis by simp
    next
      case False
      with 1 have "R ?m x" by simp
      then show ?thesis using \<open>R x c\<close> by (rule trans)
    qed
    then have "\<not> R c ?m" by (rule asym)
    with True 1 2 3 mc show ?thesis by auto
  next
    case False
    let ?m = "py_max_from R c xs"
    from Cons.IH [of c] have
      1: "?m = c \<or> (?m \<in> set xs \<and> R ?m c)" and 2: "\<not> R c ?m" and 3: "\<forall>y \<in> set xs. \<not> R y ?m"
      by blast+
    have "\<not> R x ?m"
    proof
      assume xm: "R x ?m"
      have "R x c"
      proof (cases "?m = c")
        case True
        with xm show ?thesis by simp
      next
        case False
        with 1 have "R ?m c" by simp
        with xm show ?thesis by (rule trans)
      qed
      with \<open>\<not> R x c\<close> show False ..
    qed
    with False 1 2 3 show ?thesis by auto
  qed
qed

lemma check_latest_file_result:
  "check_latest_file F roots ds =
     Inr (map_option snd (py_max (\<lambda>x y. float_gt F (fst x) (fst y))
       (List.map_filter (\<lambda>f. map_option (\<lambda>v. (v, f)) (snapshot_version F ds f))
          (if roots_exists roots then roots_files roots else []))))"
proof -
  define P where "P = (\<lambda>f. prefix (ds @ ''_root_v'') f \<and> suffix ''.json'' f)"
  define g where "g = (\<lambda>f. map_option (\<lambda>v. (v, f)) (snapshot_version F ds f))"
  have gP: "P f" if "g f \<noteq> None" for f
    using that by (simp add: g_def P_def snapshot_version_def split: if_splits)
  have "filter (\<lambda>f. g f \<noteq> None) (filter P fs) = filter (\<lambda>f. g f \<noteq> None) fs" for fs
    using gP by (induction fs) auto
  then have filt: "List.map_filter g (filter P fs) = List.map_filter g fs" for fs
    by (simp add: List.map_filter_def)
  have all: "\<forall>f \<in> set (filter P fs). prefix (ds @ ''_root_v'') f \<and> suffix ''.json'' f" for fs
    by (simp add: P_def)
  have loop: "check_version_loop F [] (filter P fs) = Inr (List.map_filter g fs)" for fs
    using check_version_loop_result [where files = "filter P fs" and acc = "[]" and F = F, OF all]
      filt [of fs] by (simp add: g_def)
  have unfold: "check_latest_file F roots ds =
     (if roots_exists roots then
        (if filter P (roots_files roots) \<noteq> [] then
           (case check_version_loop F [] (filter P (roots_files roots)) of
              Inl e \<Rightarrow> Inl e
            | Inr version_list \<Rightarrow>
                Inr (map_option snd (py_max (\<lambda>x y. float_gt F (fst x) (fst y)) version_list)))
         else Inr None)
      else Inr None)"
    by (simp add: check_latest_file_def Let_def P_def split: sum.splits option.splits)
  show ?thesis
  proof (cases "roots_exists roots")
    case False
    then show ?thesis by (simp add: unfold List.map_filter_simps py_max_def)
  next
    case True
    show ?thesis
    proof (cases "filter P (roots_files roots) = []")
      case False
      with True show ?thesis by (simp add: unfold loop g_def)
    next
      case e: True
      have "List.map_filter g (roots_files roots) = []"
        using filt [of "roots_files roots"] e by (simp add: List.map_filter_simps)
      with True e show ?thesis by (simp add: unfold py_max_def g_def)
    qed
  qed
qed

lemma locate_stored_eq: "locate_stored_apex F roots ds = check_stored_apex F roots ds"
  by (simp add: locate_stored_apex_def check_stored_apex_def locate_latest_eq)

lemma detect_stored_eq:
  "detect_stored_apex F roots ds =
     (case check_stored_apex F roots ds of Inl e \<Rightarrow> Inr None | Inr stored \<Rightarrow> Inr stored)"
  by (simp add: detect_stored_apex_def check_stored_apex_def detect_latest_eq
      check_latest_file_result split: option.splits sum.splits)

lemma floor_rat_numeral [simp]: "\<lfloor>numeral a / numeral b :: rat\<rfloor> = numeral a div numeral b"
  using floor_divide_of_int_eq [of "numeral a" "numeral b", where ?'a = rat] by simp

lemmas float_text_eval =
  py_float_of_def parse_number_def parse_inf_or_nan_def parse_exponent_def split_sign_def
  is_digit_def is_blank_def decode_decimal_def ascii_lower_def Let_def power_int_minus_divide

lemma round_examples:
  "round_to_double 1 = Finite 1"
  "round_to_double 2 = Finite 2"
  "round_to_double (11 / 10) = Finite (2476979795053773 / 2251799813685248)"
  "round_to_double (6 / 5) = Finite (5404319552844595 / 4503599627370496)"
  "round_to_double (2476979795053773 / 2251799813685248 + tenth)
     = Finite (5404319552844596 / 4503599627370496)"
proof -
  show "round_to_double 1 = Finite 1"
    by (subst round_to_double_binade [where k = 0]) (simp_all add: round_half_even_def Let_def)
  show "round_to_double 2 = Finite 2"
    by (subst round_to_double_binade [where k = 1]) (simp_all add: round_half_even_def Let_def)
  show "round_to_double (11 / 10) = Finite (2476979795053773 / 2251799813685248)"
    by (subst round_to_double_binade [where k = 0])
       (simp_all add: round_half_even_def Let_def power_int_minus_divide)
  show "round_to_double (6 / 5) = Finite (5404319552844595 / 4503599627370496)"
    by (subst round_to_double_binade [where k = 0])
       (simp_all add: round_half_even_def Let_def power_int_minus_divide)
  show "round_to_double (2476979795053773 / 2251799813685248 + tenth)
     = Finite (5404319552844596 / 4503599627370496)"
    by (subst round_to_double_binade [where k = 0])
       (simp_all add: round_half_even_def Let_def power_int_minus_divide tenth_def)
qed

lemma float_of_examples:
  "py_float_of ''1.0'' = Some (Finite 1)"
  "py_float_of ''1.1'' = Some (Finite (2476979795053773 / 2251799813685248))"
  "py_float_of ''1.2'' = Some (Finite (5404319552844595 / 4503599627370496))"
  "py_float_of ''2.0'' = Some (Finite 2)"
  "py_float_of ''x'' = None"
  "py_float_of ''inf'' = Some PosInf"
  "py_float_of ''nan'' = Some NaN"
  by (simp_all add: float_text_eval round_examples)

lemma version_part_examples:
  "version_part ''ds_root_v1.0.json'' = Inr ''1.0''"
  "version_part ''ds_root_v2.0.json'' = Inr ''2.0''"
  "version_part ''ds_root_vnan.json'' = Inr ''nan''"
  by (simp_all add: version_part_def py_split_def)

lemma check_latest_nan:
  "check_latest_file py_builtins nan_roots ''ds'' = Inr (Some ''ds_root_vnan.json'')"
proof -
  have loop: "check_version_loop py_builtins []
       [''ds_root_vnan.json'', ''ds_root_v1.0.json'', ''ds_root_v2.0.json'']
     = Inr [(NaN, ''ds_root_vnan.json''), (Finite 1, ''ds_root_v1.0.json''),
            (Finite 2, ''ds_root_v2.0.json'')]"
    by (simp add: version_part_examples py_builtins_def float_of_examples)
  show ?thesis
    using loop
    by (simp add: check_latest_file_def nan_roots_def suffix_to_prefix py_max_def)
       (simp add: py_builtins_def)
qed

text \<open>
  Claim C7 fails on the code. The three selectors do choose the same file on every
  \<open>roots\<close> directory, none of them raises, and the commands load the same stored apex
  hash from it (where reading the file fails, \<open>detect-tampering\<close> is left without a hash
  and the other two raise). But the chosen file is not always the one whose version
  parses as the greatest float: \<open>max\<close> replaces its candidate only by an item that
  compares greater, and nothing compares greater than \<open>nan\<close>. In a directory that lists
  \<open>ds_root_vnan.json\<close> before \<open>ds_root_v1.0.json\<close> and \<open>ds_root_v2.0.json\<close>, all three
  selectors choose \<open>ds_root_vnan.json\<close> and load its apex hash, although the segment
  \<open>2.0\<close> parses as the greatest float.
\<close>

theorem latest_snapshot_is_the_nan_file:
  "locate_latest_file F roots ds = check_latest_file F roots ds
   \<and> detect_latest_file F roots ds = check_latest_file F roots ds
   \<and> locate_stored_apex F roots ds = check_stored_apex F roots ds
   \<and> detect_stored_apex F roots ds =
       (case check_stored_apex F roots ds of Inl e \<Rightarrow> Inr None | Inr stored \<Rightarrow> Inr stored)
   \<and> (\<exists>choice. check_latest_file F roots ds = Inr choice)
   \<and> roots_files nan_roots = [''ds_root_vnan.json'', ''ds_root_v1.0.json'', ''ds_root_v2.0.json'']
   \<and> py_float_of ''nan'' = Some NaN
   \<and> py_float_of ''1.0'' = Some (Finite 1)
   \<and> py_float_of ''2.0'' = Some (Finite 2)
   \<and> py_float_gt (Finite 2) (Finite 1) \<and> \<not> py_float_gt NaN (Finite 2)
   \<and> check_latest_file py_builtins nan_roots ''ds'' = Inr (Some ''ds_root_vnan.json'')
   \<and> locate_latest_file py_builtins nan_roots ''ds'' = Inr (Some ''ds_root_vnan.json'')
   \<and> detect_latest_file py_builtins nan_roots ''ds'' = Inr (Some ''ds_root_vnan.json'')
   \<and> check_stored_apex py_builtins nan_roots ''ds'' = Inr (Some ''apex-of-nan'')
   \<and> locate_stored_apex py_builtins nan_roots ''ds'' = Inr (Some ''apex-of-nan'')
   \<and> detect_stored_apex py_builtins nan_roots ''ds'' = Inr (Some ''apex-of-nan'')
   \<and> load_root_hash nan_roots ''ds_root_v2.0.json'' = Inr (Some ''apex-of-2.0'')"
proof -
  have general: "locate_latest_file F roots ds = check_latest_file F roots ds
   \<and> detect_latest_file F roots ds = check_latest_file F roots ds
   \<and> locate_stored_apex F roots ds = check_stored_apex F roots ds
   \<and> detect_stored_apex F roots ds =
       (case check_stored_apex F roots ds of Inl e \<Rightarrow> Inr None | Inr stored \<Rightarrow> Inr stored)
   \<and> (\<exists>choice. check_latest_file F roots ds = Inr choice)"
    using locate_latest_eq detect_latest_eq locate_stored_eq detect_stored_eq
      check_latest_file_result by blast
  have listing: "roots_files nan_roots
      = [''ds_root_vnan.json'', ''ds_root_v1.0.json'', ''ds_root_v2.0.json'']"
    "load_root_hash nan_roots ''ds_root_v2.0.json'' = Inr (Some ''apex-of-2.0'')"
    by (simp_all add: nan_roots_def)
  have stored: "check_stored_apex py_builtins nan_roots ''ds'' = Inr (Some ''apex-of-nan'')"
    by (simp add: check_stored_apex_def check_latest_nan) (simp add: nan_roots_def)
  have "locate_stored_apex py_builtins nan_roots ''ds'' = Inr (Some ''apex-of-nan'')"
    "detect_stored_apex py_builtins nan_roots ''ds'' = Inr (Some ''apex-of-nan'')"
    using stored by (simp_all add: locate_stored_eq detect_stored_eq)
  with general listing stored check_latest_nan float_of_examples show ?thesis
    by (simp add: locate_latest_eq detect_latest_eq)
qed

section \<open>Properties of the snapshot versions\<close>

lemma py_float_gt_trans: "py_float_gt a b \<Longrightarrow> py_float_gt b c \<Longrightarrow> py_float_gt a c"
  by (cases a; cases b; cases c) simp_all

lemma py_float_gt_asym: "py_float_gt a b \<Longrightarrow> \<not> py_float_gt b a"
  by (cases a; cases b) simp_all

lemma py_float_gt_strict_order: "strict_order (float_gt py_builtins)"
  unfolding strict_order_def
proof (intro conjI allI impI)
  fix a b c
  assume "float_gt py_builtins a b \<and> float_gt py_builtins b c"
  then show "float_gt py_builtins a c"
    using py_float_gt_trans [of a b c] by (simp add: py_builtins_def)
next
  fix a b
  assume "float_gt py_builtins a b"
  then show "\<not> float_gt py_builtins b a"
    using py_float_gt_asym [of a b] by (simp add: py_builtins_def)
qed

lemma py_float_gt_finite:
  "is_finite a \<Longrightarrow> is_finite b \<Longrightarrow> py_float_gt a b = (float_value b < float_value a)"
  by (cases a; cases b) simp_all

lemma collect_inf:
  "collect_versions py_builtins (snapshot_prefix ''ds'') [''ds_root_vinf.json''] = [PosInf]"
  by (simp add: snapshot_prefix_def version_slice_def suffix_to_prefix py_builtins_def
      float_of_examples)

lemma name_after_inf:
  "root_storage_file py_builtins [''ds_root_vinf.json''] ''ds'' = ''ds_root_vinf.json''"
  using collect_inf
  by (simp add: root_storage_file_def determine_next_version_def py_max_def)
     (simp add: py_builtins_def)

text \<open>
  Claim C6, as stated, fails. When the directory holds the snapshot
  \<open>ds_root_vinf.json\<close>, its version parses as the float infinity; adding \<open>0.1\<close> leaves
  infinity, which is not greater than the existing version and is formatted as \<open>inf\<close>,
  so the run writes to the existing file.
\<close>

theorem infinite_version_is_overwritten_counterexample:
  "roots_listing (example_env [''a'', ''b''] [''ds_root_vinf.json'']) = [''ds_root_vinf.json'']
   \<and> construct_verification_tree py_builtins (spec_build id append 0)
        (example_env [''a'', ''b''] [''ds_root_vinf.json'']) [''ds'']
       = Inr (Persisted ''ds_root_vinf.json''
           [(''timestamp'', JStr ''2024-01-01T00:00:00''), (''root_hash'', JStr ''ab''),
            (''record_count'', JInt 2), (''dataset'', JStr ''ds''), (''tree_height'', JInt 2)])
   \<and> collect_versions py_builtins (snapshot_prefix ''ds'') [''ds_root_vinf.json''] = [PosInf]
   \<and> determine_next_version py_builtins [''ds_root_vinf.json''] ''ds'' = PosInf
   \<and> \<not> float_gt py_builtins PosInf PosInf"
  using build_two name_after_inf collect_inf
  by (simp add: construct_verification_tree_def example_env_def determine_next_version_def
      py_max_def) (simp add: py_builtins_def)

text \<open>
  A finite version is overwritten in the same way once adding \<open>0.1\<close> no longer changes
  it. The doubles from \<open>2^50\<close> on are a quarter or more apart, so \<open>2^50 + 0.1\<close> rounds
  back to \<open>2^50\<close>.
\<close>

lemma absorbing_version_is_overwritten:
  "py_float_of ''1125899906842624.0'' = Some (Finite (2 ^ 50))
   \<and> py_add_tenth (Finite (2 ^ 50)) = Finite (2 ^ 50)
   \<and> root_storage_file py_builtins [''ds_root_v1125899906842624.0.json''] ''ds''
       = ''ds_root_v1125899906842624.0.json''"
proof -
  have r1: "round_to_double 1125899906842624 = Finite 1125899906842624"
    by (subst round_to_double_binade [where k = 50])
       (simp_all add: round_half_even_def Let_def power_int_minus_divide)
  have r2: "round_to_double (1125899906842624 + tenth) = Finite 1125899906842624"
    by (subst round_to_double_binade [where k = 50])
       (simp_all add: round_half_even_def Let_def power_int_minus_divide tenth_def)
  have parse: "py_float_of ''1125899906842624.0'' = Some (Finite 1125899906842624)"
    by (simp add: float_text_eval r1)
  have render: "py_format_1f (Finite 1125899906842624) = ''1125899906842624.0''"
    by (simp add: round_half_even_def Let_def decimal_digits.simps digit_char_def)
  have "collect_versions py_builtins (snapshot_prefix ''ds'')
          [''ds_root_v1125899906842624.0.json''] = [Finite 1125899906842624]"
    by (simp add: snapshot_prefix_def version_slice_def suffix_to_prefix py_builtins_def parse)
  then have "root_storage_file py_builtins [''ds_root_v1125899906842624.0.json''] ''ds''
       = ''ds_root_v1125899906842624.0.json''"
    by (simp add: root_storage_file_def determine_next_version_def py_max_def py_builtins_def
        r2 render del: py_format_1f.simps)
  with parse r2 show ?thesis by simp
qed

lemma set_collect_versions:
  "(v \<in> set (collect_versions F filename_prefix directory_contents))
     = (\<exists>f \<in> set directory_contents. prefix filename_prefix f \<and> suffix ''.json'' f
          \<and> float_of F (version_slice filename_prefix f) = Some v)"
  by (induction directory_contents) (auto split: option.splits)

lemma version_slice_of_name:
  "version_slice filename_prefix (filename_prefix @ version_text @ ''.json'') = version_text"
  by (simp add: version_slice_def)

lemma py_max_plain_maximal:
  assumes "strict_order gt" and "py_max gt xs = Some m"
  shows "m \<in> set xs \<and> (\<forall>x \<in> set xs. \<not> gt x m)"
proof -
  from assms(2) obtain c rest where xs: "xs = c # rest" and m: "m = py_max_from gt c rest"
    by (cases xs) (auto simp: py_max_def)
  have "(py_max_from gt c rest = c \<or> (py_max_from gt c rest \<in> set rest \<and> gt (py_max_from gt c rest) c))
       \<and> \<not> gt c (py_max_from gt c rest)
       \<and> (\<forall>x \<in> set rest. \<not> gt x (py_max_from gt c rest))"
  proof (rule py_max_from_maximal)
    show "gt a b \<Longrightarrow> gt b c' \<Longrightarrow> gt a c'" for a b c'
      using assms(1) unfolding strict_order_def by blast
    show "gt a b \<Longrightarrow> \<not> gt b a" for a b
      using assms(1) unfolding strict_order_def by blast
  qed
  with xs m show ?thesis by auto
qed

lemma py_max_from_member: "py_max_from R c xs \<in> set (c # xs)"
  by (induction xs arbitrary: c) auto

lemma next_version_cases:
  "(collect_versions F (snapshot_prefix ds) listing = []
       \<longrightarrow> determine_next_version F listing ds = float_one F)
   \<and> (collect_versions F (snapshot_prefix ds) listing \<noteq> []
       \<longrightarrow> (\<exists>m \<in> set (collect_versions F (snapshot_prefix ds) listing).
             determine_next_version F listing ds = add_tenth F m
             \<and> (strict_order (float_gt F)
                 \<longrightarrow> (\<forall>v \<in> set (collect_versions F (snapshot_prefix ds) listing).
                        \<not> float_gt F v m))))"
proof (cases "collect_versions F (snapshot_prefix ds) listing")
  case Nil
  then show ?thesis by (simp add: determine_next_version_def py_max_def)
next
  case (Cons c rest)
  let ?vs = "collect_versions F (snapshot_prefix ds) listing"
  let ?m = "py_max_from (float_gt F) c rest"
  have pm: "py_max (float_gt F) ?vs = Some ?m" using Cons by (simp add: py_max_def)
  have mem: "?m \<in> set ?vs" using py_max_from_member [of "float_gt F" c rest] Cons by simp
  have nxt: "determine_next_version F listing ds = add_tenth F ?m"
    using pm by (simp add: determine_next_version_def)
  have "\<forall>v \<in> set ?vs. \<not> float_gt F v ?m" if "strict_order (float_gt F)"
    using py_max_plain_maximal [OF that pm] by simp
  with Cons mem nxt show ?thesis by auto
qed

lemma fresh_name:
  assumes so: "strict_order (float_gt F)"
    and w: "float_of F (format_1f F (determine_next_version F listing ds)) = Some w"
    and gt: "\<forall>v \<in> set (collect_versions F (snapshot_prefix ds) listing). float_gt F w v"
  shows "root_storage_file F listing ds \<notin> set listing"
proof
  let ?V = "format_1f F (determine_next_version F listing ds)"
  let ?name = "root_storage_file F listing ds"
  assume "?name \<in> set listing"
  moreover have name: "?name = snapshot_prefix ds @ ?V @ ''.json''"
    by (simp add: root_storage_file_def snapshot_prefix_def)
  moreover have "prefix (snapshot_prefix ds) ?name" unfolding name by simp
  moreover have "suffix ''.json'' ?name" unfolding name by (simp add: suffix_def)
  moreover have "float_of F (version_slice (snapshot_prefix ds) ?name) = Some w"
    unfolding name version_slice_of_name by (rule w)
  ultimately have "w \<in> set (collect_versions F (snapshot_prefix ds) listing)"
    unfolding set_collect_versions by blast
  with gt have "float_gt F w w" by blast
  with so show False unfolding strict_order_def by blast
qed

text \<open>
  The version that follows a parsed version \<open>m\<close> with \<open>-2^50 \<le> m < 2^50\<close>: the sum
  \<open>m + 0.1\<close>, rendered with one decimal place and read again, is a float greater than
  \<open>m\<close>.
\<close>

lemma next_version_greater:
  assumes parsed: "py_float_of s = Some m" and fin: "is_finite m"
    and lo: "- (2 ^ 50) \<le> float_value m" and hi: "float_value m < 2 ^ 50"
  shows "\<exists>v. py_float_of (py_format_1f (py_add_tenth m)) = Some v \<and> is_finite v
       \<and> float_value m < float_value v"
proof -
  define a where "a = float_value m"
  have add: "py_add_tenth m = round_to_double (a + tenth)"
    using finite_cases [OF fin] unfolding a_def by (cases m) auto
  show ?thesis
  proof (cases "\<bar>a\<bar> < 2 ^ 47")
    case True
    from next_version_small [OF this] show ?thesis unfolding add a_def .
  next
    case False
    then have big: "2 ^ 47 \<le> \<bar>a\<bar>" by simp
    have "(1::rat) \<le> 2 ^ 47" by simp
    from this big [unfolded a_def] have "1 \<le> \<bar>float_value m\<bar>" by (rule order_trans)
    from float_of_representable [OF parsed fin this]
    have "on_grid a (binary_exponent a - 52)" by (simp add: a_def)
    from next_version_large [OF this big] lo hi show ?thesis unfolding add a_def by simp
  qed
qed

lemma first_version_reparsed: "py_float_of (py_format_1f (Finite 1)) = Some (Finite 1)"
proof -
  have "one_decimal 1 = 1" by (simp add: one_decimal_def round_half_even_def)
  then show ?thesis by (simp add: reparse_format round_examples del: py_format_1f.simps)
qed

text \<open>
  Claim C6, amended. Let every version that parses from a listed snapshot name of the
  dataset be a finite float \<open>v\<close> with \<open>-2^50 \<le> v < 2^50\<close>: the floats that adding \<open>0.1\<close>
  changes. Then a successful run writes its snapshot to the file named by the dataset,
  \<open>_root_v\<close>, the \<open>.1f\<close> rendering of the next version and \<open>.json\<close>, where the next
  version is \<open>1.0\<close> when no listed name parses and otherwise the maximum of the parsed
  versions plus \<open>0.1\<close>. The version that parses from the new name is a finite float
  greater than every parsed version (\<open>1.0\<close> when there is none), and the new name is not
  in the directory listing, so no existing file is overwritten.
\<close>

theorem new_snapshot_name_is_fresh:
  assumes run: "construct_verification_tree py_builtins build env [dataset_name]
             = Inr (Persisted snapshot_file snapshot)"
    and range: "\<forall>v \<in> set (collect_versions py_builtins (snapshot_prefix dataset_name)
                            (roots_listing env)).
                  is_finite v \<and> - (2 ^ 50) \<le> float_value v \<and> float_value v < 2 ^ 50"
  shows "(\<forall>v. (v \<in> set (collect_versions py_builtins (snapshot_prefix dataset_name)
                       (roots_listing env)))
         = (\<exists>f \<in> set (roots_listing env).
              prefix (dataset_name @ ''_root_v'') f \<and> suffix ''.json'' f
              \<and> py_float_of (version_slice (dataset_name @ ''_root_v'') f) = Some v))
   \<and> (collect_versions py_builtins (snapshot_prefix dataset_name) (roots_listing env) = []
       \<longrightarrow> determine_next_version py_builtins (roots_listing env) dataset_name = Finite 1)
   \<and> (collect_versions py_builtins (snapshot_prefix dataset_name) (roots_listing env) \<noteq> []
       \<longrightarrow> (\<exists>m \<in> set (collect_versions py_builtins (snapshot_prefix dataset_name)
                           (roots_listing env)).
             determine_next_version py_builtins (roots_listing env) dataset_name = py_add_tenth m
             \<and> (\<forall>v \<in> set (collect_versions py_builtins (snapshot_prefix dataset_name)
                              (roots_listing env)). \<not> py_float_gt v m)))
   \<and> snapshot_file = dataset_name @ ''_root_v''
       @ py_format_1f (determine_next_version py_builtins (roots_listing env) dataset_name)
       @ ''.json''
   \<and> (\<exists>new_version.
         py_float_of (version_slice (dataset_name @ ''_root_v'') snapshot_file) = Some new_version
       \<and> is_finite new_version
       \<and> (collect_versions py_builtins (snapshot_prefix dataset_name) (roots_listing env) = []
           \<longrightarrow> new_version = Finite 1)
       \<and> (\<forall>v \<in> set (collect_versions py_builtins (snapshot_prefix dataset_name)
                        (roots_listing env)). py_float_gt new_version v))
   \<and> snapshot_file \<notin> set (roots_listing env)"
proof -
  let ?listing = "roots_listing env"
  let ?vs = "collect_versions py_builtins (snapshot_prefix dataset_name) ?listing"
  let ?next = "determine_next_version py_builtins ?listing dataset_name"
  have F: "float_of py_builtins = py_float_of" "float_gt py_builtins = py_float_gt"
    "float_one py_builtins = Finite 1" "add_tenth py_builtins = py_add_tenth"
    "format_1f py_builtins = py_format_1f"
    by (simp_all add: py_builtins_def)
  from construct_persisted [OF run]
  have "snapshot_file = root_storage_file py_builtins ?listing dataset_name" by auto
  then have name: "snapshot_file = dataset_name @ ''_root_v'' @ py_format_1f ?next @ ''.json''"
    by (simp add: root_storage_file_def F)
  have slice: "version_slice (dataset_name @ ''_root_v'') snapshot_file = py_format_1f ?next"
    unfolding name
    using version_slice_of_name [of "dataset_name @ ''_root_v''" "py_format_1f ?next"] by simp
  have chars: "(v \<in> set ?vs)
         = (\<exists>f \<in> set ?listing.
              prefix (dataset_name @ ''_root_v'') f \<and> suffix ''.json'' f
              \<and> py_float_of (version_slice (dataset_name @ ''_root_v'') f) = Some v)" for v
    using set_collect_versions [of v py_builtins "snapshot_prefix dataset_name" ?listing]
    by (simp add: snapshot_prefix_def F)
  note cases = next_version_cases [of py_builtins dataset_name ?listing, unfolded F]
  have empty: "?next = Finite 1" if "?vs = []" using cases that by simp
  have some: "\<exists>m \<in> set ?vs. ?next = py_add_tenth m \<and> (\<forall>v \<in> set ?vs. \<not> py_float_gt v m)"
    if "?vs \<noteq> []"
    using cases that py_float_gt_strict_order by (simp add: F)
  have new: "\<exists>w. py_float_of (py_format_1f ?next) = Some w \<and> is_finite w
       \<and> (?vs = [] \<longrightarrow> w = Finite 1) \<and> (\<forall>v \<in> set ?vs. py_float_gt w v)"
  proof (cases "?vs = []")
    case True
    with empty first_version_reparsed show ?thesis by simp
  next
    case False
    from some [OF False] obtain m where m: "m \<in> set ?vs" "?next = py_add_tenth m"
      and greatest: "\<forall>v \<in> set ?vs. \<not> py_float_gt v m" by blast
    from m(1) chars obtain s where parsed: "py_float_of s = Some m" by auto
    from range m(1) have mf: "is_finite m" "- (2 ^ 50) \<le> float_value m" "float_value m < 2 ^ 50"
      by auto
    from next_version_greater [OF parsed mf] obtain w where
      w: "py_float_of (py_format_1f (py_add_tenth m)) = Some w" "is_finite w"
        "float_value m < float_value w" by blast
    have "py_float_gt w v" if v: "v \<in> set ?vs" for v
    proof -
      from range v have vf: "is_finite v" by auto
      from greatest v have "\<not> py_float_gt v m" by blast
      then have "float_value v \<le> float_value m" using py_float_gt_finite [OF vf mf(1)] by simp
      with w(3) show ?thesis using py_float_gt_finite [OF w(2) vf] by simp
    qed
    with w m(2) False show ?thesis by auto
  qed
  then obtain w where w: "py_float_of (py_format_1f ?next) = Some w" "is_finite w"
    "?vs = [] \<longrightarrow> w = Finite 1" "\<forall>v \<in> set ?vs. py_float_gt w v" by blast
  have fresh: "snapshot_file \<notin> set ?listing"
    using fresh_name [of py_builtins ?listing dataset_name w] py_float_gt_strict_order w(1,4)
      \<open>snapshot_file = root_storage_file py_builtins ?listing dataset_name\<close>
    by (simp add: F)
  show ?thesis
    using chars empty some name w fresh unfolding slice by blast
qed

lemma collect_three:
  "collect_versions py_builtins (snapshot_prefix ''ds'')
      [''ds_root_v1.0.json'', ''ds_root_v1.1.json'', ''ds_root_vx.json'']
     = [Finite 1, Finite (2476979795053773 / 2251799813685248)]"
  by (simp add: snapshot_prefix_def version_slice_def suffix_to_prefix py_builtins_def
      float_of_examples)

lemma next_after_three:
  "determine_next_version py_builtins
      [''ds_root_v1.0.json'', ''ds_root_v1.1.json'', ''ds_root_vx.json''] ''ds''
     = Finite (5404319552844596 / 4503599627370496)"
  using collect_three
  by (simp add: determine_next_version_def py_max_def) (simp add: py_builtins_def round_examples)

lemma format_next_after_three:
  "py_format_1f (Finite (5404319552844596 / 4503599627370496)) = ''1.2''"
  by (simp add: round_half_even_def Let_def decimal_digits.simps digit_char_def)

lemma construct_after_three:
  "construct_verification_tree py_builtins (spec_build id append 0)
      (example_env [''a'', ''b'', ''c'']
         [''ds_root_v1.0.json'', ''ds_root_v1.1.json'', ''ds_root_vx.json'']) [''ds'']
     = Inr (Persisted ''ds_root_v1.2.json''
         [(''timestamp'', JStr ''2024-01-01T00:00:00''), (''root_hash'', JStr ''abcc''),
          (''record_count'', JInt 3), (''dataset'', JStr ''ds''), (''tree_height'', JInt 3)])"
  using build_three next_after_three format_next_after_three
  by (simp add: construct_verification_tree_def example_env_def root_storage_file_def
      py_builtins_def del: py_format_1f.simps)

text \<open>
  The amended claim C6 at a directory with the versions 1.0 and 1.1 and one unparseable
  name. The double nearest to 1.1, plus the double nearest to 0.1, is the double just
  above the one nearest to 1.2; it is rendered as \<open>1.2\<close>, and the run writes
  \<open>ds_root_v1.2.json\<close>, whose version parses as the double nearest to 1.2.
\<close>

theorem new_snapshot_name_is_fresh_witness:
  "construct_verification_tree py_builtins (spec_build id append 0)
      (example_env [''a'', ''b'', ''c'']
         [''ds_root_v1.0.json'', ''ds_root_v1.1.json'', ''ds_root_vx.json'']) [''ds'']
     = Inr (Persisted ''ds_root_v1.2.json''
         [(''timestamp'', JStr ''2024-01-01T00:00:00''), (''root_hash'', JStr ''abcc''),
          (''record_count'', JInt 3), (''dataset'', JStr ''ds''), (''tree_height'', JInt 3)])
   \<and> collect_versions py_builtins (snapshot_prefix ''ds'')
        [''ds_root_v1.0.json'', ''ds_root_v1.1.json'', ''ds_root_vx.json'']
       = [Finite 1, Finite (2476979795053773 / 2251799813685248)]
   \<and> list_all (\<lambda>v. is_finite v \<and> - (2 ^ 50) \<le> float_value v \<and> float_value v < 2 ^ 50)
        [Finite 1, Finite (2476979795053773 / 2251799813685248)]
   \<and> determine_next_version py_builtins
        [''ds_root_v1.0.json'', ''ds_root_v1.1.json'', ''ds_root_vx.json''] ''ds''
       = py_add_tenth (Finite (2476979795053773 / 2251799813685248))
   \<and> py_float_of (version_slice ''ds_root_v'' ''ds_root_v1.2.json'')
       = Some (Finite (5404319552844595 / 4503599627370496))
   \<and> py_float_gt (Finite (5404319552844595 / 4503599627370496)) (Finite 1)
   \<and> py_float_gt (Finite (5404319552844595 / 4503599627370496))
        (Finite (2476979795053773 / 2251799813685248))
   \<and> ''ds_root_v1.2.json'' \<notin> set [''ds_root_v1.0.json'', ''ds_root_v1.1.json'', ''ds_root_vx.json'']"
proof -
  have range: "\<forall>v \<in> set (collect_versions py_builtins (snapshot_prefix ''ds'')
        (roots_listing (example_env [''a'', ''b'', ''c'']
           [''ds_root_v1.0.json'', ''ds_root_v1.1.json'', ''ds_root_vx.json'']))).
      is_finite v \<and> - (2 ^ 50) \<le> float_value v \<and> float_value v < 2 ^ 50"
    using collect_three by (simp add: example_env_def)
  have slice: "py_float_of (version_slice ''ds_root_v'' ''ds_root_v1.2.json'')
       = Some (Finite (5404319552844595 / 4503599627370496))"
    by (simp add: version_slice_def float_of_examples)
  from new_snapshot_name_is_fresh [OF construct_after_three range]
    construct_after_three collect_three next_after_three slice
  show ?thesis by (simp add: example_env_def round_examples)
qed


end
